theory Spec2Isabelle
  imports Main "HOL-Library.Char_ord" "HOL-Library.List_Lexorder"
begin

section \<open>Debug sample history: data model\<close>

text \<open>
  Errors the navigation code can raise. \<open>InvalidScrollId\<close> is raised by the code itself,
  \<open>TypeError\<close> and \<open>IndexError\<close> by the Python runtime (an order comparison with
  \<open>None\<close>, \<open>urls[0]\<close> on an empty list), \<open>DataError\<close> is what
  \<open>translate_errors_context\<close> makes of a request the search backend rejects.
\<close>

datatype error = InvalidScrollId | TypeError | IndexError | DataError

text \<open>
  An indexed debug image event, with the fields the code reads: \<open>task\<close>, \<open>metric\<close>,
  \<open>variant\<close>, \<open>iter\<close> and the payload reference \<open>url\<close>, which may be missing.
\<close>

record doc =
  d_task :: string
  d_metric :: string
  d_variant :: string
  d_iter :: int
  d_url :: "string option"

text \<open>class VariantState\<close>

record variant_state =
  name :: string
  min_iteration :: int
  max_iteration :: int

text \<open>
  class DebugSampleHistoryState. Only \<open>id\<close> is required; every other field is unset
  (\<open>None\<close>) in a new state, and \<open>variant_states\<close> is then the empty list.
\<close>

record debug_sample_history_state =
  st_id :: string
  iteration :: "int option"
  variant :: "string option"
  task :: "string option"
  metric :: "string option"
  reached_first :: "bool option"
  reached_last :: "bool option"
  variant_states :: "variant_state list"
  warning :: "string option"

text \<open>class DebugSampleHistoryResult: every field defaults to \<open>None\<close>.\<close>

record debug_sample_history_result =
  scroll_id :: "string option"
  event :: "doc option"
  res_min_iteration :: "int option"
  res_max_iteration :: "int option"

definition DebugSampleHistoryResult :: "string option \<Rightarrow> debug_sample_history_result" where
  "DebugSampleHistoryResult sid =
     \<lparr>scroll_id = sid, event = None, res_min_iteration = None, res_max_iteration = None\<rparr>"

section \<open>The search backend\<close>

text \<open>
  The requests the code builds are kept as data, and the backend is an interpreter of
  them over the documents of one company and event type. A Python \<open>None\<close> in a request
  is the JSON \<open>null\<close>.
\<close>

datatype fld = Task | Metric | Variant | Iter | Url

datatype val = Str string | Num int | Null

record bounds =
  gte :: "int option"
  lte :: "int option"
  gt :: "int option"
  lt :: "int option"

definition no_bounds :: bounds where
  "no_bounds = \<lparr>gte = None, lte = None, gt = None, lt = None\<rparr>"

datatype query =
    Q_term fld val
  | Q_terms fld "val list"
  | Q_exists fld
  | Q_range fld bounds
  | Bool_must "query list"
  | Bool_should "query list"

datatype order = Asc | Desc

record es_request =
  req_size :: nat
  req_sort :: "(fld \<times> order) list"
  req_query :: query

definition jstr :: "string option \<Rightarrow> val" where
  "jstr s = (case s of None \<Rightarrow> Null | Some x \<Rightarrow> Str x)"

definition jint :: "int option \<Rightarrow> val" where
  "jint i = (case i of None \<Rightarrow> Null | Some x \<Rightarrow> Num x)"

fun field_value :: "fld \<Rightarrow> doc \<Rightarrow> val" where
  "field_value Task d = Str (d_task d)"
| "field_value Metric d = Str (d_metric d)"
| "field_value Variant d = Str (d_variant d)"
| "field_value Iter d = Num (d_iter d)"
| "field_value Url d = jstr (d_url d)"

definition in_bounds :: "bounds \<Rightarrow> int \<Rightarrow> bool" where
  "in_bounds b i \<longleftrightarrow>
     (case gte b of None \<Rightarrow> True | Some x \<Rightarrow> x \<le> i) \<and>
     (case lte b of None \<Rightarrow> True | Some x \<Rightarrow> i \<le> x) \<and>
     (case gt b of None \<Rightarrow> True | Some x \<Rightarrow> x < i) \<and>
     (case lt b of None \<Rightarrow> True | Some x \<Rightarrow> i < x)"

text \<open>
  Which documents a query selects. A \<open>bool\<close> query with only \<open>should\<close> clauses selects
  the documents of at least one clause. A bound that is \<open>null\<close> is no bound.
\<close>

fun matches :: "query \<Rightarrow> doc \<Rightarrow> bool" where
  "matches (Q_term f v) d \<longleftrightarrow> v \<noteq> Null \<and> field_value f d = v"
| "matches (Q_terms f vs) d \<longleftrightarrow> field_value f d \<noteq> Null \<and> field_value f d \<in> set vs"
| "matches (Q_exists f) d \<longleftrightarrow> field_value f d \<noteq> Null"
| "matches (Q_range f b) d \<longleftrightarrow>
     (case field_value f d of Num i \<Rightarrow> in_bounds b i | _ \<Rightarrow> False)"
| "matches (Bool_must qs) d \<longleftrightarrow> (\<forall>q \<in> set qs. matches q d)"
| "matches (Bool_should qs) d \<longleftrightarrow> (\<exists>q \<in> set qs. matches q d)"

text \<open>The backend rejects a \<open>term\<close> query whose value is \<open>null\<close>.\<close>

fun accepted :: "query \<Rightarrow> bool" where
  "accepted (Q_term f v) \<longleftrightarrow> v \<noteq> Null"
| "accepted (Bool_must qs) \<longleftrightarrow> (\<forall>q \<in> set qs. accepted q)"
| "accepted (Bool_should qs) \<longleftrightarrow> (\<forall>q \<in> set qs. accepted q)"
| "accepted _ \<longleftrightarrow> True"

fun val_less :: "val \<Rightarrow> val \<Rightarrow> bool" where
  "val_less (Num a) (Num b) \<longleftrightarrow> a < b"
| "val_less (Str a) (Str b) \<longleftrightarrow> a < b"
| "val_less _ _ \<longleftrightarrow> False"

text \<open>\<open>before ks a b\<close>: hit \<open>a\<close> sorts strictly before hit \<open>b\<close> under the sort keys \<open>ks\<close>.\<close>

fun before :: "(fld \<times> order) list \<Rightarrow> doc \<Rightarrow> doc \<Rightarrow> bool" where
  "before [] a b \<longleftrightarrow> False"
| "before ((f, ord) # ks) a b \<longleftrightarrow>
     (if field_value f a = field_value f b then before ks a b
      else (case ord of Asc \<Rightarrow> val_less (field_value f a) (field_value f b)
                      | Desc \<Rightarrow> val_less (field_value f b) (field_value f a)))"

fun insert_hit :: "(fld \<times> order) list \<Rightarrow> doc \<Rightarrow> doc list \<Rightarrow> doc list" where
  "insert_hit ks x [] = [x]"
| "insert_hit ks x (y # ys) =
     (if before ks y x then y # insert_hit ks x ys else x # y # ys)"

text \<open>Hits with equal sort keys stay in the order of the index.\<close>

definition sort_hits :: "(fld \<times> order) list \<Rightarrow> doc list \<Rightarrow> doc list" where
  "sort_hits ks xs = foldr (insert_hit ks) xs []"

text \<open>
  \<open>search_company_events\<close> for a document search, reduced to what the code reads of the
  response: the \<open>_source\<close> of each hit under \<open>hits.hits\<close>. The backend \<open>es\<close> gives the
  documents of the event type for a company.
\<close>

definition search_company_events ::
  "(string \<Rightarrow> doc list) \<Rightarrow> string \<Rightarrow> es_request \<Rightarrow> error + doc list" where
  "search_company_events es company_id body =
     (if accepted (req_query body)
      then Inr (take (req_size body)
                  (sort_hits (req_sort body) (filter (matches (req_query body)) (es company_id))))
      else Inl DataError)"

section \<open>The variant-range resolver\<close>

text \<open>
  The response of the aggregation request of \<open>_get_variant_iterations\<close>: one bucket per
  variant, with the \<open>last_iter\<close> value and the buckets of the \<open>urls\<close> sub-aggregation, each
  with its \<open>max_iter\<close> value.
\<close>

text \<open>
  The backend computes a \<open>max\<close> over the values of the field as doubles and reports a
  double. The field \<open>iter\<close> is a 64-bit integer of the index, so these doubles are finite
  whole numbers; such a double is given here by the integer it equals. \<open>shift_count n\<close> is
  the number of low bits of \<open>n\<close> that do not fit the 53 bits of a double's significand.
\<close>

type_synonym double = int

function shift_count :: "int \<Rightarrow> nat" where
  "shift_count n = (if n < 2 ^ 53 then 0 else Suc (shift_count (n div 2)))"
  by pat_completeness auto
termination
  by (relation "measure nat") auto

text \<open>
  The double nearest to an integer: the integer itself up to \<open>2 ^ 53\<close> in magnitude, and
  beyond that the integer rounded to 53 significant bits, a tie going to the even
  significand.
\<close>

definition to_double :: "int \<Rightarrow> double" where
  "to_double x =
     (if \<bar>x\<bar> \<le> 2 ^ 53 then x
      else
        (let e = shift_count \<bar>x\<bar>;
             q = \<bar>x\<bar> div 2 ^ e;
             r = \<bar>x\<bar> mod 2 ^ e;
             q' = (if 2 ^ e < 2 * r \<or> (2 * r = 2 ^ e \<and> odd q) then q + 1 else q)
         in sgn x * (q' * 2 ^ e)))"

text \<open>Python's \<open>int()\<close> of a double cuts the fraction off; a whole number stays.\<close>

definition py_int :: "double \<Rightarrow> int" where
  "py_int x = x"

record url_bucket =
  url_key :: string
  max_iter :: double

record variant_bucket =
  key :: string
  last_iter :: double
  urls :: "url_bucket list"

text \<open>
  The \<open>urls\<close> sub-aggregation over the documents \<open>ds\<close> of one variant bucket: a \<open>terms\<close>
  aggregation on \<open>url\<close> with the \<open>max\<close> of \<open>iter\<close> per bucket, ordered by that maximum
  ascending (buckets with the same maximum by key), cut to \<open>size\<close> 1.
\<close>

definition url_buckets :: "doc list \<Rightarrow> url_bucket list" where
  "url_buckets ds =
     take 1 (sort_key max_iter
       (map (\<lambda>u. \<lparr>url_key = u,
                  max_iter = Max (set (map (\<lambda>d. to_double (d_iter d))
                                          (filter (\<lambda>d. d_url d = Some u) ds)))\<rparr>)
            (sort (remdups (List.map_filter d_url ds)))))"

text \<open>
  The \<open>variants\<close> aggregation over the documents selected by the query: a \<open>terms\<close>
  aggregation on \<open>variant\<close>, buckets ordered by key ascending, cut to \<open>size\<close> buckets;
  \<open>last_iter\<close> is the \<open>max\<close> of \<open>iter\<close> in the bucket.
\<close>

definition variant_buckets :: "nat \<Rightarrow> doc list \<Rightarrow> variant_bucket list" where
  "variant_buckets size_limit ds =
     take size_limit
       (map (\<lambda>v. \<lparr>key = v,
                  last_iter = Max (set (map (\<lambda>d. to_double (d_iter d))
                                           (filter (\<lambda>d. d_variant d = v) ds))),
                  urls = url_buckets (filter (\<lambda>d. d_variant d = v) ds)\<rparr>)
            (sort (remdups (map d_variant ds))))"

text \<open>
  \<open>search_company_events\<close> for the aggregation request, reduced to the buckets under
  \<open>aggregations.variants.buckets\<close>.
\<close>

definition search_company_variants ::
  "(string \<Rightarrow> doc list) \<Rightarrow> string \<Rightarrow> nat \<Rightarrow> query \<Rightarrow> error + variant_bucket list" where
  "search_company_variants es company_id size_limit q =
     (if accepted q then Inr (variant_buckets size_limit (filter (matches q) (es company_id)))
      else Inl DataError)"

text \<open>A list comprehension whose element expression may raise.\<close>

fun py_map :: "('a \<Rightarrow> error + 'b) \<Rightarrow> 'a list \<Rightarrow> error + 'b list" where
  "py_map f [] = Inr []"
| "py_map f (x # xs) =
     (case f x of Inl e \<Rightarrow> Inl e
      | Inr y \<Rightarrow> (case py_map f xs of Inl e \<Rightarrow> Inl e | Inr ys \<Rightarrow> Inr (y # ys)))"

text \<open>A list comprehension whose condition may raise.\<close>

fun py_filter :: "('a \<Rightarrow> error + bool) \<Rightarrow> 'a list \<Rightarrow> error + 'a list" where
  "py_filter p [] = Inr []"
| "py_filter p (x # xs) =
     (case p x of Inl e \<Rightarrow> Inl e
      | Inr b \<Rightarrow> (case py_filter p xs of Inl e \<Rightarrow> Inl e
                  | Inr ys \<Rightarrow> Inr (if b then x # ys else ys)))"

definition get_variant_data :: "variant_bucket \<Rightarrow> error + (string \<times> int \<times> int)" where
  "get_variant_data variant_bucket =
     (case urls variant_bucket of
        [] \<Rightarrow> Inl IndexError
      | u # _ \<Rightarrow>
          (let variant' = key variant_bucket;
               min_iter = py_int (max_iter u);
               max_iter' = py_int (last_iter variant_bucket)
           in Inr (variant', min_iter, max_iter')))"

text \<open>The \<open>must\<close> conditions of \<open>_get_variant_iterations\<close>.\<close>

definition variant_iterations_must ::
  "string option \<Rightarrow> string option \<Rightarrow> string list option \<Rightarrow> query list" where
  "variant_iterations_must task' metric' variants =
     [Q_term Task (jstr task'), Q_term Metric (jstr metric'), Q_exists Url] @
     (case variants of
        None \<Rightarrow> []
      | Some vs \<Rightarrow> if vs = [] then [] else [Q_terms Variant (map Str vs)])"

text \<open>
  \<open>_get_variant_iterations\<close>. \<open>max_variants_count\<close> stands for
  \<open>EventSettings.max_variants_count\<close>.
\<close>

definition get_variant_iterations ::
  "(string \<Rightarrow> doc list) \<Rightarrow> nat \<Rightarrow> string \<Rightarrow> string option \<Rightarrow> string option \<Rightarrow>
   string list option \<Rightarrow> error + (string \<times> int \<times> int) list" where
  "get_variant_iterations es max_variants_count company_id task' metric' variants =
     (case search_company_variants es company_id max_variants_count
             (Bool_must (variant_iterations_must task' metric' variants)) of
        Inl e \<Rightarrow> Inl e
      | Inr buckets \<Rightarrow> py_map get_variant_data buckets)"

text \<open>\<open>_reset_variant_states\<close>\<close>

definition reset_variant_states ::
  "(string \<Rightarrow> doc list) \<Rightarrow> nat \<Rightarrow> string \<Rightarrow> debug_sample_history_state \<Rightarrow>
   error + debug_sample_history_state" where
  "reset_variant_states es max_variants_count company_id state =
     (case get_variant_iterations es max_variants_count company_id (task state) (metric state) None of
        Inl e \<Rightarrow> Inl e
      | Inr variant_iterations \<Rightarrow>
          Inr (state\<lparr>variant_states :=
                 map (\<lambda>(var_name, min_iter, max_iter).
                        \<lparr>name = var_name, min_iteration = min_iter, max_iteration = max_iter\<rparr>)
                     variant_iterations\<rparr>))"

section \<open>The cursor state cache\<close>

text \<open>
  Modelled from the spec: \<open>RedisCacheManager\<close> (\<open>get_state\<close>, \<open>set_state\<close>,
  \<open>get_or_create_state\<close>) is not among the sources. The spec's CursorStateStore maps a
  cursor id to a state; \<open>get\<close> is a pure read, \<open>save\<close> writes the state under its id,
  and the store mints a fresh id when none is supplied. Expiry and the lock of
  \<open>transact\<close> are left out: the model runs one request at a time and no entry expires
  between two requests. \<open>minted\<close> counts the ids minted so far.
\<close>

record cache_manager =
  states :: "string \<rightharpoonup> debug_sample_history_state"
  minted :: nat

definition get_state :: "cache_manager \<Rightarrow> string \<Rightarrow> debug_sample_history_state option" where
  "get_state cm state_id = states cm state_id"

definition set_state :: "cache_manager \<Rightarrow> debug_sample_history_state \<Rightarrow> cache_manager" where
  "set_state cm state = cm\<lparr>states := (states cm)(st_id state \<mapsto> state)\<rparr>"

text \<open>
  Modelled from the spec: the id generator is not among the sources. Two ids it mints
  differ; the model writes the number of the id in unary.
\<close>

definition new_id :: "nat \<Rightarrow> string" where
  "new_id n = CHR ''s'' # replicate n (CHR ''+'')"

definition mint_id :: "cache_manager \<Rightarrow> string \<times> cache_manager" where
  "mint_id cm = (new_id (minted cm), cm\<lparr>minted := Suc (minted cm)\<rparr>)"

definition DebugSampleHistoryState :: "string \<Rightarrow> debug_sample_history_state" where
  "DebugSampleHistoryState i =
     \<lparr>st_id = i, iteration = None, variant = None, task = None, metric = None,
      reached_first = None, reached_last = None, variant_states = [], warning = None\<rparr>"

text \<open>
  Modelled from the spec: \<open>transact(id?, init, validate)\<close>. The id is the one supplied or
  a freshly minted one; the state under it is loaded and validated, or a new one is
  constructed and initialised; the caller's block \<open>body\<close> mutates it; on normal exit the
  state is saved, and on an error of \<open>init\<close>, \<open>validate\<close> or \<open>body\<close> nothing is saved.
\<close>

definition get_or_create_state ::
  "cache_manager \<Rightarrow> string option \<Rightarrow>
   (debug_sample_history_state \<Rightarrow> error + debug_sample_history_state) \<Rightarrow>
   (debug_sample_history_state \<Rightarrow> error + debug_sample_history_state) \<Rightarrow>
   (debug_sample_history_state \<Rightarrow> error + 'r \<times> debug_sample_history_state) \<Rightarrow>
   (error + 'r) \<times> cache_manager" where
  "get_or_create_state cm state_id init_state validate_state body =
     (case (case state_id of None \<Rightarrow> mint_id cm | Some i \<Rightarrow> (i, cm)) of
        (i, cm1) \<Rightarrow>
          (case (case get_state cm1 i of
                   None \<Rightarrow> init_state (DebugSampleHistoryState i)
                 | Some state \<Rightarrow> validate_state state) of
             Inl e \<Rightarrow> (Inl e, cm1)
           | Inr state \<Rightarrow>
               (case body state of
                  Inl e \<Rightarrow> (Inl e, cm1)
                | Inr (r, state') \<Rightarrow> (Inr r, set_state cm1 state'))))"

text \<open>
  Modelled from the spec: \<open>check_empty_data\<close> is not among the sources. It holds when the
  index has no document for the company and event type.
\<close>

definition check_empty_data :: "(string \<Rightarrow> doc list) \<Rightarrow> string \<Rightarrow> bool" where
  "check_empty_data es company_id \<longleftrightarrow> es company_id = []"

section \<open>Navigation\<close>

text \<open>
  Python's order comparisons, where the right operand may be \<open>None\<close>: comparing a string
  or an integer with \<open>None\<close> raises \<open>TypeError\<close>. \<open>py_cmp\<close> is \<open>operator.lt\<close> when navigating
  earlier and \<open>operator.gt\<close> otherwise. Strings compare by their characters' codes.
\<close>

definition py_cmp :: "bool \<Rightarrow> string \<Rightarrow> string option \<Rightarrow> error + bool" where
  "py_cmp navigate_earlier a b =
     (case b of None \<Rightarrow> Inl TypeError
      | Some b' \<Rightarrow> Inr (if navigate_earlier then a < b' else b' < a))"

definition py_le :: "int \<Rightarrow> int option \<Rightarrow> error + bool" where
  "py_le a b = (case b of None \<Rightarrow> Inl TypeError | Some b' \<Rightarrow> Inr (a \<le> b'))"

definition py_lt :: "int \<Rightarrow> int option \<Rightarrow> error + bool" where
  "py_lt a b = (case b of None \<Rightarrow> Inl TypeError | Some b' \<Rightarrow> Inr (a < b'))"

text \<open>\<open>hits[0]["_source"]\<close> if there are hits, else \<open>None\<close>.\<close>

definition first_hit :: "doc list \<Rightarrow> doc option" where
  "first_hit hits = (case hits of [] \<Rightarrow> None | h # _ \<Rightarrow> Some h)"

text \<open>\<open>_fill_res_and_update_state\<close>; \<open>first\<close> gives the first state of that name, if any.\<close>

definition fill_res_and_update_state ::
  "doc \<Rightarrow> debug_sample_history_result \<Rightarrow> debug_sample_history_state \<Rightarrow>
   debug_sample_history_result \<times> debug_sample_history_state" where
  "fill_res_and_update_state image' res state =
     (let state = state\<lparr>variant := Some (d_variant image'), iteration := Some (d_iter image')\<rparr>;
          res = res\<lparr>event := Some image'\<rparr>
      in case find (\<lambda>s. Some (name s) = variant state) (variant_states state) of
           Some var_state \<Rightarrow>
             (res\<lparr>res_min_iteration := Some (min_iteration var_state),
                  res_max_iteration := Some (max_iteration var_state)\<rparr>, state)
         | None \<Rightarrow> (res, state))"

text \<open>The list \<open>variants\<close> of \<open>_get_next_for_current_iteration\<close>.\<close>

definition current_iteration_variants ::
  "bool \<Rightarrow> debug_sample_history_state \<Rightarrow> error + variant_state list" where
  "current_iteration_variants navigate_earlier state =
     py_filter
       (\<lambda>var_state.
          case py_cmp navigate_earlier (name var_state) (variant state) of
            Inl e \<Rightarrow> Inl e
          | Inr b \<Rightarrow> if b then py_le (min_iteration var_state) (iteration state) else Inr False)
       (variant_states state)"

definition get_next_for_current_iteration ::
  "(string \<Rightarrow> doc list) \<Rightarrow> string \<Rightarrow> bool \<Rightarrow> debug_sample_history_state \<Rightarrow>
   error + doc option" where
  "get_next_for_current_iteration es company_id navigate_earlier state =
     (case current_iteration_variants navigate_earlier state of
        Inl e \<Rightarrow> Inl e
      | Inr variants \<Rightarrow>
          if variants = [] then Inr None
          else
            (case search_company_events es company_id
                    \<lparr>req_size = 1,
                     req_sort = [(Variant, if navigate_earlier then Desc else Asc)],
                     req_query = Bool_must
                       [Q_term Task (jstr (task state)),
                        Q_term Metric (jstr (metric state)),
                        Q_terms Variant (map (\<lambda>v. Str (name v)) variants),
                        Q_term Iter (jint (iteration state)),
                        Q_exists Url]\<rparr> of
               Inl e \<Rightarrow> Inl e
             | Inr hits \<Rightarrow> Inr (first_hit hits)))"

text \<open>The list \<open>variants\<close> of \<open>_get_next_for_another_iteration\<close>.\<close>

definition another_iteration_variants ::
  "bool \<Rightarrow> debug_sample_history_state \<Rightarrow> error + variant_state list" where
  "another_iteration_variants navigate_earlier state =
     (if navigate_earlier
      then py_filter (\<lambda>var_state. py_lt (min_iteration var_state) (iteration state))
             (variant_states state)
      else Inr (variant_states state))"

text \<open>The request of \<open>_get_next_for_another_iteration\<close> for a list \<open>variants\<close>.\<close>

definition another_iteration_request ::
  "bool \<Rightarrow> debug_sample_history_state \<Rightarrow> variant_state list \<Rightarrow> es_request" where
  "another_iteration_request navigate_earlier state variants =
     \<lparr>req_size = 1,
      req_sort = (if navigate_earlier then [(Iter, Desc), (Variant, Desc)]
                  else [(Iter, Asc), (Variant, Asc)]),
      req_query = Bool_must
        [Q_term Task (jstr (task state)),
         Q_term Metric (jstr (metric state)),
         Q_exists Url,
         Bool_should
           (map (\<lambda>v. Bool_must
                   [Q_term Variant (Str (name v)),
                    Q_range Iter (no_bounds\<lparr>gte := Some (min_iteration v)\<rparr>)])
                variants),
         Q_range Iter (if navigate_earlier then no_bounds\<lparr>lt := iteration state\<rparr>
                       else no_bounds\<lparr>gt := iteration state\<rparr>)]\<rparr>"

definition get_next_for_another_iteration ::
  "(string \<Rightarrow> doc list) \<Rightarrow> string \<Rightarrow> bool \<Rightarrow> debug_sample_history_state \<Rightarrow>
   error + doc option" where
  "get_next_for_another_iteration es company_id navigate_earlier state =
     (case another_iteration_variants navigate_earlier state of
        Inl e \<Rightarrow> Inl e
      | Inr variants \<Rightarrow>
          if variants = [] then Inr None
          else
            (case search_company_events es company_id
                    (another_iteration_request navigate_earlier state variants) of
               Inl e \<Rightarrow> Inl e
             | Inr hits \<Rightarrow> Inr (first_hit hits)))"

section \<open>The public operations\<close>

text \<open>
  \<open>get_next_debug_image\<close>. The result is the value returned or the error raised, with the
  cache as the call leaves it.
\<close>

definition get_next_debug_image ::
  "(string \<Rightarrow> doc list) \<Rightarrow> string \<Rightarrow> string \<Rightarrow> string \<Rightarrow> bool \<Rightarrow> cache_manager \<Rightarrow>
   (error + debug_sample_history_result) \<times> cache_manager" where
  "get_next_debug_image es company_id task' state_id navigate_earlier cm =
     (let res = DebugSampleHistoryResult (Some state_id) in
      case get_state cm state_id of
        None \<Rightarrow> (Inl InvalidScrollId, cm)
      | Some state \<Rightarrow>
          if task state \<noteq> Some task' then (Inl InvalidScrollId, cm)
          else if check_empty_data es company_id then (Inr res, cm)
          else
            (case (case get_next_for_current_iteration es company_id navigate_earlier state of
                     Inl e \<Rightarrow> Inl e
                   | Inr (Some image') \<Rightarrow> Inr (Some image')
                   | Inr None \<Rightarrow>
                       get_next_for_another_iteration es company_id navigate_earlier state) of
               Inl e \<Rightarrow> (Inl e, cm)
             | Inr None \<Rightarrow> (Inr res, cm)
             | Inr (Some image') \<Rightarrow>
                 (case fill_res_and_update_state image' res state of
                    (res', state') \<Rightarrow> (Inr res', set_state cm state'))))"

text \<open>\<open>init_state\<close> and \<open>validate_state\<close> of \<open>get_debug_image_for_variant\<close>.\<close>

definition init_state ::
  "(string \<Rightarrow> doc list) \<Rightarrow> nat \<Rightarrow> string \<Rightarrow> string \<Rightarrow> string \<Rightarrow>
   debug_sample_history_state \<Rightarrow> error + debug_sample_history_state" where
  "init_state es max_variants_count company_id task' metric' state =
     reset_variant_states es max_variants_count company_id
       (state\<lparr>task := Some task', metric := Some metric'\<rparr>)"

definition validate_state ::
  "(string \<Rightarrow> doc list) \<Rightarrow> nat \<Rightarrow> string \<Rightarrow> string \<Rightarrow> string \<Rightarrow> bool \<Rightarrow>
   debug_sample_history_state \<Rightarrow> error + debug_sample_history_state" where
  "validate_state es max_variants_count company_id task' metric' refresh state =
     (if task state \<noteq> Some task' \<or> metric state \<noteq> Some metric' then Inl InvalidScrollId
      else if refresh then reset_variant_states es max_variants_count company_id state
      else Inr state)"

text \<open>The block of \<open>get_debug_image_for_variant\<close> that runs on the state of the cursor.\<close>

definition debug_image_for_variant_block ::
  "(string \<Rightarrow> doc list) \<Rightarrow> string \<Rightarrow> string \<Rightarrow> string \<Rightarrow> string \<Rightarrow> int option \<Rightarrow>
   debug_sample_history_state \<Rightarrow>
   error + debug_sample_history_result \<times> debug_sample_history_state" where
  "debug_image_for_variant_block es company_id task' metric' variant' iteration' state =
     (let res = (DebugSampleHistoryResult None)\<lparr>scroll_id := Some (st_id state)\<rparr> in
      case find (\<lambda>s. name s = variant') (variant_states state) of
        None \<Rightarrow> Inr (res, state)
      | Some var_state \<Rightarrow>
          (let res = res\<lparr>res_min_iteration := Some (min_iteration var_state),
                         res_max_iteration := Some (max_iteration var_state)\<rparr>
           in case search_company_events es company_id
                     \<lparr>req_size = 1,
                      req_sort = [(Iter, Desc)],
                      req_query = Bool_must
                        ([Q_term Task (Str task'),
                          Q_term Metric (Str metric'),
                          Q_term Variant (Str variant'),
                          Q_exists Url] @
                         [case iteration' of
                            Some i \<Rightarrow>
                              Q_range Iter (no_bounds\<lparr>lte := Some i,
                                                      gte := Some (min_iteration var_state)\<rparr>)
                          | None \<Rightarrow>
                              Q_range Iter (no_bounds\<lparr>gte := Some (min_iteration var_state)\<rparr>)])\<rparr> of
                Inl e \<Rightarrow> Inl e
              | Inr hits \<Rightarrow>
                  (case hits of
                     [] \<Rightarrow> Inr (res, state)
                   | h # _ \<Rightarrow> Inr (fill_res_and_update_state h res state))))"

text \<open>\<open>get_debug_image_for_variant\<close>\<close>

definition get_debug_image_for_variant ::
  "(string \<Rightarrow> doc list) \<Rightarrow> nat \<Rightarrow> string \<Rightarrow> string \<Rightarrow> string \<Rightarrow> string \<Rightarrow> int option \<Rightarrow>
   bool \<Rightarrow> string option \<Rightarrow> cache_manager \<Rightarrow>
   (error + debug_sample_history_result) \<times> cache_manager" where
  "get_debug_image_for_variant es max_variants_count company_id task' metric' variant'
       iteration' refresh state_id cm =
     (if check_empty_data es company_id then (Inr (DebugSampleHistoryResult None), cm)
      else get_or_create_state cm state_id
             (init_state es max_variants_count company_id task' metric')
             (validate_state es max_variants_count company_id task' metric' refresh)
             (debug_image_for_variant_block es company_id task' metric' variant' iteration'))"

section \<open>What the spec says, in its own terms\<close>

text \<open>
  The documents the resolver is to aggregate, in the words of the spec: the documents of
  the task and the metric that have a payload reference, restricted to the variants when
  variants are given.
\<close>

definition resolver_docs ::
  "(string \<Rightarrow> doc list) \<Rightarrow> string \<Rightarrow> string option \<Rightarrow> string option \<Rightarrow>
   string list option \<Rightarrow> doc list" where
  "resolver_docs es company_id task' metric' variants =
     filter (\<lambda>d. Some (d_task d) = task' \<and> Some (d_metric d) = metric' \<and> d_url d \<noteq> None \<and>
                 (case variants of
                    None \<Rightarrow> True
                  | Some vs \<Rightarrow> vs = [] \<or> d_variant d \<in> set vs))
       (es company_id)"

text \<open>The payload references of the documents of variant \<open>v\<close>.\<close>

definition payload_refs :: "doc list \<Rightarrow> string \<Rightarrow> string set" where
  "payload_refs ds v = (\<Union>d \<in> set ds. if d_variant d = v then set_option (d_url d) else {})"

text \<open>The per-payload maxima: for each payload of \<open>v\<close>, the maximum iteration it has.\<close>

definition payload_maxima :: "doc list \<Rightarrow> string \<Rightarrow> int set" where
  "payload_maxima ds v =
     (\<lambda>u. Max (d_iter ` {d \<in> set ds. d_variant d = v \<and> d_url d = Some u})) ` payload_refs ds v"

text \<open>
  The per-payload maxima of the iterations as the backend reports them, each iteration as
  the double nearest to it.
\<close>

definition reported_payload_maxima :: "doc list \<Rightarrow> string \<Rightarrow> int set" where
  "reported_payload_maxima ds v =
     (\<lambda>u. Max ((\<lambda>d. to_double (d_iter d)) ` {d \<in> set ds. d_variant d = v \<and> d_url d = Some u}))
       ` payload_refs ds v"

text \<open>Every state in the cache has its \<open>variant_states\<close> sorted ascending by name.\<close>

definition cache_sorted :: "cache_manager \<Rightarrow> bool" where
  "cache_sorted cm \<longleftrightarrow>
     (\<forall>i state. states cm i = Some state \<longrightarrow> sorted (map name (variant_states state)))"

section \<open>Scenarios\<close>

text \<open>A debug image of task \<open>T\<close> and metric \<open>M\<close>.\<close>

definition sample :: "string \<Rightarrow> int \<Rightarrow> string \<Rightarrow> doc" where
  "sample v i u = \<lparr>d_task = ''T'', d_metric = ''M'', d_variant = v, d_iter = i, d_url = Some u\<rparr>"

text \<open>
  Recycling: variant \<open>x\<close> with iterations 1 and 2 on the same payload and iteration 3 on
  a new one.
\<close>

definition recycling_index :: "string \<Rightarrow> doc list" where
  "recycling_index company_id = [sample ''x'' 1 ''A'', sample ''x'' 2 ''A'', sample ''x'' 3 ''B'']"

text \<open>
  The scenario of the spec: variants \<open>a\<close> and \<open>b\<close>, with events for \<open>a\<close> at iterations 0
  and 1 and for \<open>b\<close> at iteration 0; the cursor \<open>s\<close> stands at \<open>a\<close>, iteration 1.
\<close>

definition scenario_index :: "string \<Rightarrow> doc list" where
  "scenario_index company_id = [sample ''a'' 0 ''u1'', sample ''b'' 0 ''u2'', sample ''a'' 1 ''u3'']"

definition scenario_state :: debug_sample_history_state where
  "scenario_state =
     \<lparr>st_id = ''s'', iteration = Some 1, variant = Some ''a'', task = Some ''T'',
      metric = Some ''M'', reached_first = None, reached_last = None,
      variant_states = [\<lparr>name = ''a'', min_iteration = 0, max_iteration = 1\<rparr>,
                        \<lparr>name = ''b'', min_iteration = 0, max_iteration = 0\<rparr>],
      warning = None\<rparr>"

definition scenario_cache :: cache_manager where
  "scenario_cache = \<lparr>states = [''s'' \<mapsto> scenario_state], minted = 1\<rparr>"

text \<open>An index without documents.\<close>

definition empty_index :: "string \<Rightarrow> doc list" where
  "empty_index company_id = []"

text \<open>
  A sparse variant: \<open>b\<close> has samples at iterations 3 and 7 only, so its window starts at
  3, and the cursor \<open>s\<close> stands at \<open>a\<close>, iteration 5.
\<close>

definition sparse_index :: "string \<Rightarrow> doc list" where
  "sparse_index company_id = [sample ''a'' 5 ''u1'', sample ''b'' 3 ''u2'', sample ''b'' 7 ''u3'']"

definition sparse_state :: debug_sample_history_state where
  "sparse_state =
     \<lparr>st_id = ''s'', iteration = Some 5, variant = Some ''a'', task = Some ''T'',
      metric = Some ''M'', reached_first = None, reached_last = None,
      variant_states = [\<lparr>name = ''a'', min_iteration = 5, max_iteration = 5\<rparr>,
                        \<lparr>name = ''b'', min_iteration = 3, max_iteration = 7\<rparr>],
      warning = None\<rparr>"

definition sparse_cache :: cache_manager where
  "sparse_cache = \<lparr>states = [''s'' \<mapsto> sparse_state], minted = 1\<rparr>"

text \<open>
  Two variants with a sample at iteration 5 each, and a later sample of \<open>a\<close>; the cursor
  \<open>s\<close> stands at \<open>a\<close>, iteration 5.
\<close>

definition tie_index :: "string \<Rightarrow> doc list" where
  "tie_index company_id = [sample ''a'' 5 ''u1'', sample ''b'' 5 ''u2'', sample ''a'' 6 ''u3'']"

definition tie_state :: debug_sample_history_state where
  "tie_state =
     \<lparr>st_id = ''s'', iteration = Some 5, variant = Some ''a'', task = Some ''T'',
      metric = Some ''M'', reached_first = None, reached_last = None,
      variant_states = [\<lparr>name = ''a'', min_iteration = 5, max_iteration = 6\<rparr>,
                        \<lparr>name = ''b'', min_iteration = 5, max_iteration = 5\<rparr>],
      warning = None\<rparr>"

definition tie_cache :: cache_manager where
  "tie_cache = \<lparr>states = [''s'' \<mapsto> tie_state], minted = 1\<rparr>"

text \<open>A cache without states, before any id is minted.\<close>

definition empty_cache :: cache_manager where
  "empty_cache = \<lparr>states = Map.empty, minted = 0\<rparr>"

text \<open>One sample at iteration \<open>2 ^ 53 + 1\<close>, which no double equals.\<close>

definition large_index :: "string \<Rightarrow> doc list" where
  "large_index company_id = [sample ''x'' 9007199254740993 ''A'']"

section \<open>The resolver: lemmas\<close>

lemma py_map_mem:
  "py_map f xs = Inr ys \<Longrightarrow> y \<in> set ys \<Longrightarrow> \<exists>x \<in> set xs. f x = Inr y"
  by (induction xs arbitrary: ys) (auto split: sum.splits)

lemma hd_sort_key_Min:
  assumes "xs \<noteq> []"
  shows "f (hd (sort_key f xs)) = Min (f ` set xs)"
proof -
  let ?ys = "sort_key f xs"
  have "set ?ys = set xs" by simp
  with assms have ne: "?ys \<noteq> []" by (metis set_empty)
  then obtain y zs where ys: "?ys = y # zs" by (cases ?ys) auto
  have "sorted (map f ?ys)" by simp
  with ys have le: "\<forall>z \<in> set ?ys. f y \<le> f z" by auto
  have "y \<in> set ?ys" using ys by simp
  then have yin: "y \<in> set xs" by simp
  have le': "\<forall>z \<in> set xs. f y \<le> f z" using le by simp
  have "Min (f ` set xs) = f y"
  proof (rule Min_eqI)
    show "finite (f ` set xs)" by simp
    show "\<And>z. z \<in> f ` set xs \<Longrightarrow> f y \<le> z" using le' by auto
    show "f y \<in> f ` set xs" using yin by simp
  qed
  with ys show ?thesis by simp
qed

lemma set_map_filter_url:
  "set (List.map_filter d_url ds) = {u. \<exists>d \<in> set ds. d_url d = Some u}"
proof -
  have "\<And>u d. d \<in> set ds \<Longrightarrow> d_url d = Some u \<Longrightarrow>
          u \<in> (\<lambda>x. the (d_url x)) ` {x \<in> set ds. \<exists>y. d_url x = Some y}"
    by force
  then show ?thesis by (auto simp: List.map_filter_def)
qed

lemma url_buckets_Cons:
  assumes "url_buckets ds = b # bs"
  shows "\<exists>u. (\<exists>d \<in> set ds. d_url d = Some u) \<and>
           max_iter b = Max ((\<lambda>d. to_double (d_iter d)) ` {d \<in> set ds. d_url d = Some u})"
    and "\<forall>u. (\<exists>d \<in> set ds. d_url d = Some u) \<longrightarrow>
           max_iter b \<le> Max ((\<lambda>d. to_double (d_iter d)) ` {d \<in> set ds. d_url d = Some u})"
proof -
  let ?g = "\<lambda>u. \<lparr>url_key = u, max_iter = Max (set (map (\<lambda>d. to_double (d_iter d)) (filter (\<lambda>d. d_url d = Some u) ds)))\<rparr>"
  let ?xs = "map ?g (sort (remdups (List.map_filter d_url ds)))"
  from assms have tk: "take 1 (sort_key max_iter ?xs) = b # bs" by (simp add: url_buckets_def)
  then have ne: "?xs \<noteq> []" by auto
  from tk have b: "b = hd (sort_key max_iter ?xs)" by (cases "sort_key max_iter ?xs") auto
  have sx: "set ?xs = ?g ` {u. \<exists>d \<in> set ds. d_url d = Some u}"
    by (simp add: set_map_filter_url)
  have mb: "max_iter b = Min (max_iter ` set ?xs)"
    using hd_sort_key_Min [OF ne, of max_iter] b by simp
  have "Min (max_iter ` set ?xs) \<in> max_iter ` set ?xs"
    using ne by (intro Min_in) auto
  with mb have "max_iter b \<in> max_iter ` set ?xs" by simp
  then show "\<exists>u. (\<exists>d \<in> set ds. d_url d = Some u) \<and>
           max_iter b = Max ((\<lambda>d. to_double (d_iter d)) ` {d \<in> set ds. d_url d = Some u})"
    unfolding sx by auto
  show "\<forall>u. (\<exists>d \<in> set ds. d_url d = Some u) \<longrightarrow>
           max_iter b \<le> Max ((\<lambda>d. to_double (d_iter d)) ` {d \<in> set ds. d_url d = Some u})"
  proof (intro allI impI)
    fix u assume u: "\<exists>d \<in> set ds. d_url d = Some u"
    then have "?g u \<in> set ?xs" unfolding sx by blast
    then have "max_iter (?g u) \<in> max_iter ` set ?xs" by (rule imageI)
    then have "Min (max_iter ` set ?xs) \<le> max_iter (?g u)" by (intro Min_le) auto
    with mb show "max_iter b \<le> Max ((\<lambda>d. to_double (d_iter d)) ` {d \<in> set ds. d_url d = Some u})" by simp
  qed
qed

lemma variant_buckets_mem:
  assumes "b \<in> set (variant_buckets n ds)"
  shows "key b \<in> d_variant ` set ds"
    and "last_iter b = Max ((\<lambda>d. to_double (d_iter d)) ` {d \<in> set ds. d_variant d = key b})"
    and "urls b = url_buckets (filter (\<lambda>d. d_variant d = key b) ds)"
proof -
  from assms obtain v where v: "v \<in> set (map d_variant ds)"
    and b: "b = \<lparr>key = v,
                  last_iter = Max (set (map (\<lambda>d. to_double (d_iter d)) (filter (\<lambda>d. d_variant d = v) ds))),
                  urls = url_buckets (filter (\<lambda>d. d_variant d = v) ds)\<rparr>"
    unfolding variant_buckets_def by (auto dest!: in_set_takeD)
  from v b show "key b \<in> d_variant ` set ds" by simp
  from b show "last_iter b = Max ((\<lambda>d. to_double (d_iter d)) ` {d \<in> set ds. d_variant d = key b})" by simp
  from b show "urls b = url_buckets (filter (\<lambda>d. d_variant d = key b) ds)" by simp
qed

lemma payload_refs_iff:
  "u \<in> payload_refs ds v \<longleftrightarrow> (\<exists>d \<in> set ds. d_variant d = v \<and> d_url d = Some u)"
  by (auto simp: payload_refs_def split: if_splits)

lemma variant_iterations_must_matches:
  assumes "accepted (Bool_must (variant_iterations_must t m vs))"
  shows "matches (Bool_must (variant_iterations_must t m vs)) d \<longleftrightarrow>
           Some (d_task d) = t \<and> Some (d_metric d) = m \<and> d_url d \<noteq> None \<and>
           (case vs of None \<Rightarrow> True | Some ws \<Rightarrow> ws = [] \<or> d_variant d \<in> set ws)"
proof -
  from assms obtain t' m' where tm: "t = Some t'" "m = Some m'"
    by (cases t; cases m) (auto simp: variant_iterations_must_def jstr_def)
  show ?thesis
  proof (cases vs)
    case None
    with tm show ?thesis
      by (auto simp: variant_iterations_must_def jstr_def split: option.splits)
  next
    case (Some ws)
    have "Str (d_variant d) \<in> Str ` set ws \<longleftrightarrow> d_variant d \<in> set ws" by auto
    with Some tm show ?thesis
      by (auto simp: variant_iterations_must_def jstr_def split: option.splits)
  qed
qed

lemma get_variant_iterations_buckets:
  assumes "get_variant_iterations es n c t m vs = Inr rs"
  shows "py_map get_variant_data (variant_buckets n (resolver_docs es c t m vs)) = Inr rs"
proof -
  from assms have acc: "accepted (Bool_must (variant_iterations_must t m vs))"
    and pm: "py_map get_variant_data
               (variant_buckets n
                  (filter (matches (Bool_must (variant_iterations_must t m vs))) (es c))) = Inr rs"
    by (auto simp: get_variant_iterations_def search_company_variants_def
             split: if_splits sum.splits)
  have "filter (matches (Bool_must (variant_iterations_must t m vs))) (es c)
          = resolver_docs es c t m vs"
    unfolding resolver_docs_def
    by (rule filter_cong [OF refl]) (rule variant_iterations_must_matches [OF acc])
  with pm show ?thesis by simp
qed

lemma get_variant_iterations_mem:
  assumes "get_variant_iterations es n c t m vs = Inr rs" and "(v, mn, mx) \<in> set rs"
  obtains b u us where "b \<in> set (variant_buckets n (resolver_docs es c t m vs))"
    and "key b = v" and "urls b = u # us" and "max_iter u = mn" and "last_iter b = mx"
proof -
  note pm = get_variant_iterations_buckets [OF assms(1)]
  from py_map_mem [OF pm assms(2)] obtain b
    where b: "b \<in> set (variant_buckets n (resolver_docs es c t m vs))"
      and g: "get_variant_data b = Inr (v, mn, mx)" by blast
  from g obtain u us where "urls b = u # us" "key b = v" "max_iter u = mn" "last_iter b = mx"
    by (auto simp: get_variant_data_def py_int_def Let_def split: list.splits)
  with b that show thesis by blast
qed

lemma resolved_min_iteration:
  assumes "get_variant_iterations es n c t m vs = Inr rs" and "(v, mn, mx) \<in> set rs"
  shows "\<exists>u. (\<exists>d \<in> set (resolver_docs es c t m vs). d_variant d = v \<and> d_url d = Some u) \<and>
           mn = Max ((\<lambda>d. to_double (d_iter d)) ` {d \<in> set (resolver_docs es c t m vs). d_variant d = v \<and> d_url d = Some u})"
    and "\<forall>u. (\<exists>d \<in> set (resolver_docs es c t m vs). d_variant d = v \<and> d_url d = Some u) \<longrightarrow>
           mn \<le> Max ((\<lambda>d. to_double (d_iter d)) ` {d \<in> set (resolver_docs es c t m vs). d_variant d = v \<and> d_url d = Some u})"
    and "mx = Max ((\<lambda>d. to_double (d_iter d)) ` {d \<in> set (resolver_docs es c t m vs). d_variant d = v})"
proof -
  let ?ds = "resolver_docs es c t m vs"
  from assms obtain b u us where b: "b \<in> set (variant_buckets n ?ds)"
    and k: "key b = v" and us: "urls b = u # us" and mn: "max_iter u = mn" and mx: "last_iter b = mx"
    by (rule get_variant_iterations_mem)
  from variant_buckets_mem(3) [OF b] us k
  have ub: "url_buckets (filter (\<lambda>d. d_variant d = v) ?ds) = u # us" by simp
  have eq: "\<And>w. {d \<in> set (filter (\<lambda>d. d_variant d = v) ?ds). d_url d = Some w}
            = {d \<in> set ?ds. d_variant d = v \<and> d_url d = Some w}" by auto
  from url_buckets_Cons(1) [OF ub] mn
  show "\<exists>u. (\<exists>d \<in> set ?ds. d_variant d = v \<and> d_url d = Some u) \<and>
           mn = Max ((\<lambda>d. to_double (d_iter d)) ` {d \<in> set ?ds. d_variant d = v \<and> d_url d = Some u})"
    unfolding eq by auto
  from url_buckets_Cons(2) [OF ub] mn
  show "\<forall>u. (\<exists>d \<in> set ?ds. d_variant d = v \<and> d_url d = Some u) \<longrightarrow>
           mn \<le> Max ((\<lambda>d. to_double (d_iter d)) ` {d \<in> set ?ds. d_variant d = v \<and> d_url d = Some u})"
    unfolding eq by auto
  from variant_buckets_mem(2) [OF b] k mx
  show "mx = Max ((\<lambda>d. to_double (d_iter d)) ` {d \<in> set ?ds. d_variant d = v})" by simp
qed

lemma recycling_resolved:
  "get_variant_iterations recycling_index 100 ''c'' (Some ''T'') (Some ''M'') None
     = Inr [(''x'', 2, 3)]"
  by code_simp

lemma large_resolved:
  "get_variant_iterations large_index 100 ''c'' (Some ''T'') (Some ''M'') None
     = Inr [(''x'', 9007199254740992, 9007199254740992)]"
  by code_simp

lemma to_double_exact: "\<bar>x\<bar> \<le> 2 ^ 53 \<Longrightarrow> to_double x = x"
  by (simp add: to_double_def)

lemma large_payload_maxima:
  "Min (payload_maxima (resolver_docs large_index ''c'' (Some ''T'') (Some ''M'') None) ''x'')
     = 9007199254740993"
  by (simp add: payload_maxima_def payload_refs_def resolver_docs_def large_index_def sample_def)

section \<open>Searches and comprehensions: lemmas\<close>

lemma set_insert_hit: "set (insert_hit ks x ys) = insert x (set ys)"
  by (induction ys) auto

lemma set_sort_hits: "set (sort_hits ks xs) = set xs"
  unfolding sort_hits_def by (induction xs) (simp_all add: set_insert_hit)

lemma first_hit_take:
  "first_hit (take 1 xs) = None \<longleftrightarrow> xs = []"
  "first_hit (take 1 xs) = Some h \<Longrightarrow> h \<in> set xs"
  by (cases xs; simp add: first_hit_def)+

lemma search_hits:
  assumes "search_company_events es c req = Inr hits"
  shows "hits = take (req_size req)
                  (sort_hits (req_sort req) (filter (matches (req_query req)) (es c)))"
  using assms by (simp add: search_company_events_def split: if_splits)

lemma search_first_hit_None:
  assumes "search_company_events es c req = Inr hits" and "req_size req = 1"
  shows "first_hit hits = None \<longleftrightarrow> (\<forall>d \<in> set (es c). \<not> matches (req_query req) d)"
proof -
  from search_hits [OF assms(1)] assms(2)
  have h: "hits = take 1 (sort_hits (req_sort req) (filter (matches (req_query req)) (es c)))"
    by simp
  have "first_hit hits = None \<longleftrightarrow>
          sort_hits (req_sort req) (filter (matches (req_query req)) (es c)) = []"
    unfolding h by (rule first_hit_take(1))
  also have "\<dots> \<longleftrightarrow>
          set (sort_hits (req_sort req) (filter (matches (req_query req)) (es c))) = {}"
    by simp
  also have "\<dots> \<longleftrightarrow> (\<forall>d \<in> set (es c). \<not> matches (req_query req) d)"
    unfolding set_sort_hits by auto
  finally show ?thesis .
qed

lemma search_first_hit_Some:
  assumes "search_company_events es c req = Inr hits" and "req_size req = 1"
    and "first_hit hits = Some h"
  shows "h \<in> set (es c) \<and> matches (req_query req) h"
proof -
  from search_hits [OF assms(1)] assms(2)
  have h: "hits = take 1 (sort_hits (req_sort req) (filter (matches (req_query req)) (es c)))"
    by simp
  from assms(3) have "h \<in> set (sort_hits (req_sort req) (filter (matches (req_query req)) (es c)))"
    unfolding h by (rule first_hit_take(2))
  then show ?thesis unfolding set_sort_hits by simp
qed

lemma search_no_InvalidScrollId:
  "search_company_events es c req \<noteq> Inl InvalidScrollId"
  by (simp add: search_company_events_def)


lemma py_filter_Inl:
  "py_filter p xs = Inl e \<Longrightarrow> \<exists>x \<in> set xs. p x = Inl e"
  by (induction xs) (auto split: sum.splits)

lemma py_filter_subset:
  "py_filter p xs = Inr ys \<Longrightarrow> set ys \<subseteq> set xs"
  by (induction xs arbitrary: ys) (auto split: sum.splits if_splits)

section \<open>The two phases: lemmas\<close>



lemma current_iteration_variants_no_InvalidScrollId:
  "current_iteration_variants ne state \<noteq> Inl InvalidScrollId"
proof
  assume "current_iteration_variants ne state = Inl InvalidScrollId"
  then have "\<exists>x \<in> set (variant_states state).
      (case py_cmp ne (name x) (variant state) of
         Inl e \<Rightarrow> Inl e
       | Inr b \<Rightarrow> if b then py_le (min_iteration x) (iteration state) else Inr False)
      = Inl InvalidScrollId"
    unfolding current_iteration_variants_def by (rule py_filter_Inl)
  then obtain x :: variant_state where
    "(case py_cmp ne (name x) (variant state) of
         Inl e \<Rightarrow> Inl e
       | Inr b \<Rightarrow> if b then py_le (min_iteration x) (iteration state) else Inr False)
      = Inl InvalidScrollId"
    by blast
  then show False
    by (auto simp: py_cmp_def py_le_def split: option.splits sum.splits if_splits)
qed

lemma another_iteration_variants_no_InvalidScrollId:
  "another_iteration_variants ne state \<noteq> Inl InvalidScrollId"
proof
  assume "another_iteration_variants ne state = Inl InvalidScrollId"
  then have "py_filter (\<lambda>var_state. py_lt (min_iteration var_state) (iteration state))
               (variant_states state) = Inl InvalidScrollId"
    unfolding another_iteration_variants_def by (simp split: if_splits)
  then have "\<exists>x \<in> set (variant_states state).
               py_lt (min_iteration x) (iteration state) = Inl InvalidScrollId"
    by (rule py_filter_Inl)
  then obtain x :: variant_state
    where "py_lt (min_iteration x) (iteration state) = Inl InvalidScrollId"
    by blast
  then show False by (auto simp: py_lt_def split: option.splits)
qed

lemma current_iteration_no_InvalidScrollId:
  "get_next_for_current_iteration es c ne state \<noteq> Inl InvalidScrollId"
  unfolding get_next_for_current_iteration_def
  using current_iteration_variants_no_InvalidScrollId [of ne state]
  by (auto simp: search_no_InvalidScrollId split: sum.splits)

lemma another_iteration_no_InvalidScrollId:
  "get_next_for_another_iteration es c ne state \<noteq> Inl InvalidScrollId"
  unfolding get_next_for_another_iteration_def
  using another_iteration_variants_no_InvalidScrollId [of ne state]
  by (auto simp: search_no_InvalidScrollId split: sum.splits)

section \<open>The scenarios, evaluated\<close>


lemma scenario_forward_current:
  "get_next_for_current_iteration scenario_index ''c'' False scenario_state = Inr None"
  by code_simp

lemma scenario_forward_another:
  "get_next_for_another_iteration scenario_index ''c'' False scenario_state = Inr None"
  by code_simp

lemma fill_event:
  "event (fst (fill_res_and_update_state image' res state)) = Some image'"
  by (simp add: fill_res_and_update_state_def Let_def split: option.splits)

lemma pair_current_iteration_variants:
  assumes "variant state = Some ''a''" and "iteration state = Some it"
    and "variant_states state = [va, vb]" and "name va = ''a''" and "name vb = ''b''"
    and "min_iteration vb \<le> it"
  shows "current_iteration_variants False state = Inr [vb]"
  using assms by (simp add: current_iteration_variants_def py_cmp_def py_le_def)

lemma sparse_advance:
  "fst (get_next_debug_image sparse_index ''c'' ''T'' ''s'' False sparse_cache) =
     Inr \<lparr>scroll_id = Some ''s'', event = Some (sample ''b'' 7 ''u3''),
          res_min_iteration = Some 3, res_max_iteration = Some 7\<rparr>"
  by code_simp

section \<open>The order of the variant states: lemmas\<close>

lemma py_map_fst_key:
  "py_map get_variant_data bs = Inr rs \<Longrightarrow> map fst rs = map key bs"
  by (induction bs arbitrary: rs)
     (auto simp: get_variant_data_def Let_def split: sum.splits list.splits)

lemma map_key_variant_buckets:
  "map key (variant_buckets n ds) = take n (sort (remdups (map d_variant ds)))"
  by (simp add: variant_buckets_def take_map comp_def)

lemma resolver_sorted:
  assumes "get_variant_iterations es n c t m vs = Inr rs"
  shows "sorted (map fst rs)"
proof -
  from get_variant_iterations_buckets [OF assms]
  have "map fst rs = map key (variant_buckets n (resolver_docs es c t m vs))"
    by (rule py_map_fst_key)
  then show ?thesis
    by (simp add: map_key_variant_buckets sorted_wrt_take)
qed

lemma reset_variant_states_eq:
  assumes "reset_variant_states es n c state = Inr state'"
  obtains rs where "get_variant_iterations es n c (task state) (metric state) None = Inr rs"
    and "state' = state\<lparr>variant_states :=
           map (\<lambda>(var_name, min_iter, max_iter).
                  \<lparr>name = var_name, min_iteration = min_iter, max_iteration = max_iter\<rparr>) rs\<rparr>"
  using assms by (auto simp: reset_variant_states_def split: sum.splits)

lemma reset_sorted:
  assumes "reset_variant_states es n c state = Inr state'"
  shows "sorted (map name (variant_states state'))"
proof -
  from assms obtain rs where rs: "get_variant_iterations es n c (task state) (metric state) None = Inr rs"
    and st: "state' = state\<lparr>variant_states :=
           map (\<lambda>(var_name, min_iter, max_iter).
                  \<lparr>name = var_name, min_iteration = min_iter, max_iteration = max_iter\<rparr>) rs\<rparr>"
    by (rule reset_variant_states_eq)
  have "map name (variant_states state') = map fst rs"
    unfolding st by (simp add: comp_def case_prod_beta)
  with resolver_sorted [OF rs] show ?thesis by simp
qed

lemma reset_names:
  assumes "reset_variant_states es n c state = Inr state'"
  shows "\<exists>rs. get_variant_iterations es n c (task state) (metric state) None = Inr rs \<and>
           map name (variant_states state') = map fst rs"
proof -
  from assms obtain rs where rs: "get_variant_iterations es n c (task state) (metric state) None = Inr rs"
    and st: "state' = state\<lparr>variant_states :=
           map (\<lambda>(var_name, min_iter, max_iter).
                  \<lparr>name = var_name, min_iteration = min_iter, max_iteration = max_iter\<rparr>) rs\<rparr>"
    by (rule reset_variant_states_eq)
  have "map name (variant_states state') = map fst rs"
    unfolding st by (simp add: comp_def case_prod_beta)
  with rs show ?thesis by blast
qed

lemma fill_variant_states:
  "variant_states (snd (fill_res_and_update_state image' res state)) = variant_states state"
  by (simp add: fill_res_and_update_state_def Let_def split: option.splits)

lemma fill_keeps:
  "st_id (snd (fill_res_and_update_state image' res state)) = st_id state"
  "task (snd (fill_res_and_update_state image' res state)) = task state"
  "metric (snd (fill_res_and_update_state image' res state)) = metric state"
  by (simp_all add: fill_res_and_update_state_def Let_def split: option.splits)

lemma block_keeps:
  assumes "debug_image_for_variant_block es c t m v it state = Inr (r, state')"
  shows "variant_states state' = variant_states state" and "st_id state' = st_id state"
    and "task state' = task state" and "metric state' = metric state"
proof -
  from assms have "state' = state \<or> (\<exists>h res. state' = snd (fill_res_and_update_state h res state))"
    unfolding debug_image_for_variant_block_def Let_def
    by (auto split: option.splits sum.splits list.splits) (metis snd_conv)+
  then show "variant_states state' = variant_states state" and "st_id state' = st_id state"
    and "task state' = task state" and "metric state' = metric state"
    by (auto simp: fill_variant_states fill_keeps)
qed

lemma cache_sorted_set_state:
  "cache_sorted cm \<Longrightarrow> sorted (map name (variant_states state)) \<Longrightarrow>
   cache_sorted (set_state cm state)"
  by (auto simp: cache_sorted_def set_state_def)

lemma cache_sorted_get:
  "cache_sorted cm \<Longrightarrow> get_state cm i = Some state \<Longrightarrow> sorted (map name (variant_states state))"
  by (auto simp: cache_sorted_def get_state_def)

lemma cache_sorted_mint:
  "cache_sorted cm \<Longrightarrow> cache_sorted (snd (mint_id cm))"
  by (simp add: cache_sorted_def mint_id_def)

lemma advance_cache:
  "snd (get_next_debug_image es c t sid ne cm) = cm \<or>
   (\<exists>state image' res. get_state cm sid = Some state \<and>
      snd (get_next_debug_image es c t sid ne cm) =
        set_state cm (snd (fill_res_and_update_state image' res state)))"
  unfolding get_next_debug_image_def Let_def
  by (auto split: option.splits sum.splits prod.splits) (metis snd_conv)+

lemma advance_sorted:
  assumes "cache_sorted cm"
  shows "cache_sorted (snd (get_next_debug_image es c t sid ne cm))"
proof -
  from advance_cache [of es c t sid ne cm]
  consider "snd (get_next_debug_image es c t sid ne cm) = cm"
    | state image' res where "get_state cm sid = Some state"
        "snd (get_next_debug_image es c t sid ne cm) =
           set_state cm (snd (fill_res_and_update_state image' res state))"
    by blast
  then show ?thesis
  proof cases
    case 1
    with assms show ?thesis by simp
  next
    case 2
    from cache_sorted_get [OF assms 2(1)]
    have "sorted (map name (variant_states (snd (fill_res_and_update_state image' res state))))"
      by (simp add: fill_variant_states)
    from cache_sorted_set_state [OF assms this] 2(2) show ?thesis by simp
  qed
qed

lemma validate_sorted:
  assumes "validate_state es n c t m refresh state = Inr state'"
    and "sorted (map name (variant_states state))"
  shows "sorted (map name (variant_states state'))"
  using assms unfolding validate_state_def
  by (auto split: if_splits dest: reset_sorted)

lemma init_sorted:
  assumes "init_state es n c t m state = Inr state'"
  shows "sorted (map name (variant_states state'))"
  using assms unfolding init_state_def by (rule reset_sorted)

lemma get_or_create_sorted:
  assumes cs: "cache_sorted cm"
    and i: "\<And>s s'. ini s = Inr s' \<Longrightarrow> sorted (map name (variant_states s'))"
    and v: "\<And>s s'. val s = Inr s' \<Longrightarrow> sorted (map name (variant_states s)) \<Longrightarrow>
                sorted (map name (variant_states s'))"
    and b: "\<And>s r s'. body s = Inr (r, s') \<Longrightarrow> variant_states s' = variant_states s"
  shows "cache_sorted (snd (get_or_create_state cm sid ini val body))"
proof -
  obtain k cm1 where k: "(case sid of None \<Rightarrow> mint_id cm | Some i \<Rightarrow> (i, cm)) = (k, cm1)"
    by (cases "case sid of None \<Rightarrow> mint_id cm | Some i \<Rightarrow> (i, cm)")
  have cs1: "cache_sorted cm1"
  proof (cases sid)
    case None
    with k have "cm1 = snd (mint_id cm)" by simp
    with cs show ?thesis by (simp add: cache_sorted_mint)
  next
    case (Some a)
    with k cs show ?thesis by simp
  qed
  let ?p = "case get_state cm1 k of None \<Rightarrow> ini (DebugSampleHistoryState k) | Some state \<Rightarrow> val state"
  show ?thesis
  proof (cases ?p)
    case (Inl e)
    with k cs1 show ?thesis by (simp add: get_or_create_state_def)
  next
    case (Inr s)
    have ss: "sorted (map name (variant_states s))"
    proof (cases "get_state cm1 k")
      case None
      with Inr have "ini (DebugSampleHistoryState k) = Inr s" by simp
      then show ?thesis by (rule i)
    next
      case (Some s0)
      with Inr have "val s0 = Inr s" by simp
      then show ?thesis using cache_sorted_get [OF cs1 Some] by (rule v)
    qed
    show ?thesis
    proof (cases "body s")
      case (Inl e)
      with k Inr cs1 show ?thesis by (simp add: get_or_create_state_def)
    next
      case (Inr rs')
      obtain r s' where rs': "rs' = (r, s')" by (cases rs')
      with Inr have bs: "body s = Inr (r, s')" by simp
      from b [OF bs] ss have "sorted (map name (variant_states s'))" by simp
      from cache_sorted_set_state [OF cs1 this] k \<open>?p = Inr s\<close> bs
      show ?thesis by (simp add: get_or_create_state_def)
    qed
  qed
qed

lemma jump_sorted:
  assumes "cache_sorted cm"
  shows "cache_sorted (snd (get_debug_image_for_variant es n c t m v it refresh sid cm))"
proof (cases "check_empty_data es c")
  case True
  with assms show ?thesis by (simp add: get_debug_image_for_variant_def)
next
  case False
  have "cache_sorted (snd (get_or_create_state cm sid
             (init_state es n c t m)
             (validate_state es n c t m refresh)
             (debug_image_for_variant_block es c t m v it)))"
    using assms
  proof (rule get_or_create_sorted)
    fix s s' assume "init_state es n c t m s = Inr s'"
    then show "sorted (map name (variant_states s'))" by (rule init_sorted)
  next
    fix s s' assume "validate_state es n c t m refresh s = Inr s'"
      and "sorted (map name (variant_states s))"
    then show "sorted (map name (variant_states s'))" by (rule validate_sorted)
  next
    fix s r s' assume "debug_image_for_variant_block es c t m v it s = Inr (r, s')"
    then show "variant_states s' = variant_states s" by (rule block_keeps(1))
  qed
  with False show ?thesis by (simp add: get_debug_image_for_variant_def)
qed

lemma scenario_resolved:
  "get_variant_iterations scenario_index 100 ''c'' (Some ''T'') (Some ''M'') None
     = Inr [(''a'', 0, 1), (''b'', 0, 0)]"
  by code_simp

lemma scenario_cache_sorted: "cache_sorted scenario_cache"
  by (simp add: cache_sorted_def scenario_cache_def scenario_state_def)

section \<open>Jumping twice: lemmas\<close>

lemma fill_fst_cong:
  "variant_states s1 = variant_states s2 \<Longrightarrow>
   fst (fill_res_and_update_state image' res s1) = fst (fill_res_and_update_state image' res s2)"
  by (simp add: fill_res_and_update_state_def Let_def split: option.splits)

lemma block_cong:
  assumes "st_id s1 = st_id s2" and "variant_states s1 = variant_states s2"
  shows "map_sum id fst (debug_image_for_variant_block es c t m v it s1) =
         map_sum id fst (debug_image_for_variant_block es c t m v it s2)"
  using assms fill_fst_cong [OF assms(2)]
  unfolding debug_image_for_variant_block_def Let_def
  by (auto split: option.splits sum.splits list.splits)

lemma jump_unfold:
  assumes "\<not> check_empty_data es c" and "get_state cm sid = Some state"
  shows "get_debug_image_for_variant es n c t m v it refresh (Some sid) cm =
     (case validate_state es n c t m refresh state of
        Inl e \<Rightarrow> (Inl e, cm)
      | Inr sv \<Rightarrow>
          (case debug_image_for_variant_block es c t m v it sv of
             Inl e \<Rightarrow> (Inl e, cm)
           | Inr (r, sb) \<Rightarrow> (Inr r, set_state cm sb)))"
  using assms by (simp add: get_debug_image_for_variant_def get_or_create_state_def)

lemma jump_fst:
  assumes "\<not> check_empty_data es c" and "get_state cm sid = Some state"
  shows "fst (get_debug_image_for_variant es n c t m v it refresh (Some sid) cm) =
     (case validate_state es n c t m refresh state of
        Inl e \<Rightarrow> Inl e
      | Inr sv \<Rightarrow> map_sum id fst (debug_image_for_variant_block es c t m v it sv))"
  unfolding jump_unfold [OF assms]
  by (auto split: sum.splits)

lemma validate_keeps:
  assumes "validate_state es n c t m refresh state = Inr sv"
  shows "task state = Some t" and "metric state = Some m"
    and "st_id sv = st_id state" and "task sv = Some t" and "metric sv = Some m"
  using assms unfolding validate_state_def
  by (auto split: if_splits elim!: reset_variant_states_eq)

lemma validate_again:
  assumes v: "validate_state es n c t m refresh state = Inr sv"
    and sb: "variant_states sb = variant_states sv" "task sb = task sv" "metric sb = metric sv"
  shows "\<exists>sv'. validate_state es n c t m refresh sb = Inr sv' \<and>
           variant_states sv' = variant_states sv \<and> st_id sv' = st_id sb"
proof (cases refresh)
  case False
  with v sb validate_keeps(4,5) [OF v] show ?thesis
    by (simp add: validate_state_def)
next
  case True
  from validate_keeps [OF v] have tm: "task state = Some t" "metric state = Some m"
    "task sv = Some t" "metric sv = Some m" by simp_all
  from v True tm have "reset_variant_states es n c state = Inr sv"
    by (simp add: validate_state_def)
  then obtain rs where rs: "get_variant_iterations es n c (task state) (metric state) None = Inr rs"
    and sv: "sv = state\<lparr>variant_states :=
           map (\<lambda>(var_name, min_iter, max_iter).
                  \<lparr>name = var_name, min_iteration = min_iter, max_iteration = max_iter\<rparr>) rs\<rparr>"
    by (rule reset_variant_states_eq)
  from rs tm sb have "reset_variant_states es n c sb = Inr (sb\<lparr>variant_states :=
           map (\<lambda>(var_name, min_iter, max_iter).
                  \<lparr>name = var_name, min_iteration = min_iter, max_iteration = max_iter\<rparr>) rs\<rparr>)"
    by (simp add: reset_variant_states_def)
  with True tm sb sv show ?thesis by (simp add: validate_state_def)
qed

lemma jump_twice_present:
  assumes "get_state cm sid = Some state"
  shows "fst (get_debug_image_for_variant es n c t m v it refresh (Some sid)
                (snd (get_debug_image_for_variant es n c t m v it refresh (Some sid) cm))) =
         fst (get_debug_image_for_variant es n c t m v it refresh (Some sid) cm)"
proof (cases "check_empty_data es c")
  case True
  then show ?thesis by (simp add: get_debug_image_for_variant_def)
next
  case False
  note unf = jump_unfold [OF False assms, of n t m v it refresh]
  show ?thesis
  proof (cases "validate_state es n c t m refresh state")
    case (Inl e)
    with unf show ?thesis by simp
  next
    case (Inr sv)
    show ?thesis
    proof (cases "debug_image_for_variant_block es c t m v it sv")
      case (Inl e)
      with unf Inr show ?thesis by simp
    next
      case Inr': (Inr p)
      obtain r sb where p: "p = (r, sb)" by (cases p)
      from Inr' p have blk: "debug_image_for_variant_block es c t m v it sv = Inr (r, sb)" by simp
      from unf Inr blk
      have first: "get_debug_image_for_variant es n c t m v it refresh (Some sid) cm =
                     (Inr r, set_state cm sb)" by simp
      note keep = block_keeps [OF blk]
      show ?thesis
      proof (cases "st_id sb = sid")
        case False
        with assms have "get_state (set_state cm sb) sid = Some state"
          by (simp add: get_state_def set_state_def)
        from jump_fst [OF \<open>\<not> check_empty_data es c\<close> this, of n t m v it refresh] Inr blk first
        show ?thesis by simp
      next
        case True
        then have g: "get_state (set_state cm sb) sid = Some sb"
          by (simp add: get_state_def set_state_def)
        from validate_again [OF Inr keep(1,3,4)] obtain sv'
          where v': "validate_state es n c t m refresh sb = Inr sv'"
            and eq: "variant_states sv' = variant_states sv" "st_id sv' = st_id sb" by blast
        from eq keep(2) have "st_id sv' = st_id sv" by simp
        from block_cong [OF this eq(1), of es c t m v it] blk
        have "map_sum id fst (debug_image_for_variant_block es c t m v it sv') = Inr r" by simp
        with jump_fst [OF \<open>\<not> check_empty_data es c\<close> g, of n t m v it refresh] v' first
        show ?thesis by simp
      qed
    qed
  qed
qed

lemma reset_same:
  assumes "reset_variant_states es n c s1 = Inr s1'"
    and "task s2 = task s1" and "metric s2 = metric s1"
  shows "reset_variant_states es n c s2 = Inr (s2\<lparr>variant_states := variant_states s1'\<rparr>)"
  using assms by (auto simp: reset_variant_states_def split: sum.splits)

lemma reset_keeps:
  assumes "reset_variant_states es n c s = Inr s'"
  shows "st_id s' = st_id s" and "task s' = task s" and "metric s' = metric s"
  using assms by (auto simp: reset_variant_states_def split: sum.splits)

lemma jump_unfold_absent:
  assumes "\<not> check_empty_data es c" and "get_state cm sid = None"
  shows "get_debug_image_for_variant es n c t m v it refresh (Some sid) cm =
     (case init_state es n c t m (DebugSampleHistoryState sid) of
        Inl e \<Rightarrow> (Inl e, cm)
      | Inr sv \<Rightarrow>
          (case debug_image_for_variant_block es c t m v it sv of
             Inl e \<Rightarrow> (Inl e, cm)
           | Inr (r, sb) \<Rightarrow> (Inr r, set_state cm sb)))"
  using assms by (simp add: get_debug_image_for_variant_def get_or_create_state_def)

lemma validate_after_init:
  assumes i: "init_state es n c t m s0 = Inr sv"
    and sb: "variant_states sb = variant_states sv" "task sb = task sv" "metric sb = metric sv"
  shows "\<exists>sv'. validate_state es n c t m refresh sb = Inr sv' \<and>
           variant_states sv' = variant_states sv \<and> st_id sv' = st_id sb"
proof -
  from i have r: "reset_variant_states es n c (s0\<lparr>task := Some t, metric := Some m\<rparr>) = Inr sv"
    by (simp add: init_state_def)
  from reset_keeps(2,3) [OF r] have tm: "task sv = Some t" "metric sv = Some m" by simp_all
  show ?thesis
  proof (cases refresh)
    case False
    with tm sb show ?thesis by (simp add: validate_state_def)
  next
    case True
    from sb tm have "task sb = task (s0\<lparr>task := Some t, metric := Some m\<rparr>)"
      "metric sb = metric (s0\<lparr>task := Some t, metric := Some m\<rparr>)" by simp_all
    from reset_same [OF r this]
    have "reset_variant_states es n c sb = Inr (sb\<lparr>variant_states := variant_states sv\<rparr>)" .
    with True tm sb show ?thesis by (simp add: validate_state_def)
  qed
qed

lemma jump_twice_absent:
  assumes ne: "\<not> check_empty_data es c" and g: "get_state cm sid = None"
  shows "fst (get_debug_image_for_variant es n c t m v it refresh (Some sid)
                (snd (get_debug_image_for_variant es n c t m v it refresh (Some sid) cm))) =
         fst (get_debug_image_for_variant es n c t m v it refresh (Some sid) cm)"
proof -
  note unf = jump_unfold_absent [OF ne g, of n t m v it refresh]
  show ?thesis
  proof (cases "init_state es n c t m (DebugSampleHistoryState sid)")
    case (Inl e)
    with unf show ?thesis by simp
  next
    case (Inr sv)
    then have idsv: "st_id sv = sid"
      using reset_keeps(1) [of es n c "(DebugSampleHistoryState sid)\<lparr>task := Some t, metric := Some m\<rparr>" sv]
      by (simp add: init_state_def DebugSampleHistoryState_def)
    show ?thesis
    proof (cases "debug_image_for_variant_block es c t m v it sv")
      case (Inl e)
      with unf Inr show ?thesis by simp
    next
      case Inr': (Inr p)
      obtain r sb where p: "p = (r, sb)" by (cases p)
      from Inr' p have blk: "debug_image_for_variant_block es c t m v it sv = Inr (r, sb)" by simp
      from unf Inr blk
      have first: "get_debug_image_for_variant es n c t m v it refresh (Some sid) cm =
                     (Inr r, set_state cm sb)" by simp
      note keep = block_keeps [OF blk]
      from keep(2) idsv have "st_id sb = sid" by simp
      then have g': "get_state (set_state cm sb) sid = Some sb"
        by (simp add: get_state_def set_state_def)
      from validate_after_init [OF Inr keep(1,3,4)] obtain sv'
        where v': "validate_state es n c t m refresh sb = Inr sv'"
          and eq: "variant_states sv' = variant_states sv" "st_id sv' = st_id sb" by blast
      from eq keep(2) have "st_id sv' = st_id sv" by simp
      from block_cong [OF this eq(1), of es c t m v it] blk
      have "map_sum id fst (debug_image_for_variant_block es c t m v it sv') = Inr r" by simp
      with jump_fst [OF ne g', of n t m v it refresh] v' first
      show ?thesis by simp
    qed
  qed
qed

lemma fresh_first:
  "fst (get_debug_image_for_variant scenario_index 100 ''c'' ''T'' ''M'' ''a'' None False None
          empty_cache) =
     Inr \<lparr>scroll_id = Some ''s'', event = Some (sample ''a'' 1 ''u3''),
          res_min_iteration = Some 0, res_max_iteration = Some 1\<rparr>"
  by code_simp

lemma fresh_second:
  "fst (get_debug_image_for_variant scenario_index 100 ''c'' ''T'' ''M'' ''a'' None False None
          (snd (get_debug_image_for_variant scenario_index 100 ''c'' ''T'' ''M'' ''a'' None False
                  None empty_cache))) =
     Inr \<lparr>scroll_id = Some ''s+'', event = Some (sample ''a'' 1 ''u3''),
          res_min_iteration = Some 0, res_max_iteration = Some 1\<rparr>"
  by code_simp

section \<open>The resolved window\<close>

text \<open>
  C1 (amended). For every variant the resolver returns, \<open>min_iteration\<close> is the least of the
  per-payload maxima of the iterations as the backend reports them: the documents of the
  variant (those of the task and metric with a payload reference, within the variants
  asked for) are grouped by their \<open>url\<close>, each group gives its maximum, and
  \<open>min_iteration\<close> is the minimum of these maxima (of which there is at least one). The
  backend reports an iteration as a double, so when the iterations of the variant are at
  most \<open>2 ^ 53\<close> in magnitude this is the least of the per-payload maxima of the
  iterations themselves. For variant \<open>x\<close> with iterations 1 and 2 on one payload and
  iteration 3 on another it is 2: the last iteration of the recycled payload.
\<close>

theorem min_iteration_least_payload_maximum:
  assumes "get_variant_iterations es n c t m vs = Inr rs" and "(v, mn, mx) \<in> set rs"
  shows "payload_maxima (resolver_docs es c t m vs) v \<noteq> {} \<and>
         mn = Min (reported_payload_maxima (resolver_docs es c t m vs) v) \<and>
         ((\<forall>d \<in> set (resolver_docs es c t m vs). d_variant d = v \<longrightarrow> \<bar>d_iter d\<bar> \<le> 2 ^ 53) \<longrightarrow>
            mn = Min (payload_maxima (resolver_docs es c t m vs) v))"
proof -
  let ?ds = "resolver_docs es c t m vs"
  let ?S = "reported_payload_maxima ?ds v"
  have fin: "finite ?S"
    by (simp add: reported_payload_maxima_def payload_refs_def)
  from resolved_min_iteration(1) [OF assms] obtain u
    where u: "u \<in> payload_refs ?ds v"
      and mn: "mn = Max ((\<lambda>d. to_double (d_iter d)) `
                          {d \<in> set ?ds. d_variant d = v \<and> d_url d = Some u})"
    unfolding payload_refs_iff by blast
  have mem: "mn \<in> ?S"
    unfolding reported_payload_maxima_def mn using u by (rule imageI)
  from resolved_min_iteration(2) [OF assms] have le: "\<And>x. x \<in> ?S \<Longrightarrow> mn \<le> x"
    unfolding reported_payload_maxima_def by (auto simp: payload_refs_iff)
  have min: "Min ?S = mn" using fin le mem by (rule Min_eqI)
  have ne: "payload_maxima ?ds v \<noteq> {}"
    using u by (auto simp: payload_maxima_def)
  have exact: "mn = Min (payload_maxima ?ds v)"
    if b: "\<forall>d \<in> set ?ds. d_variant d = v \<longrightarrow> \<bar>d_iter d\<bar> \<le> 2 ^ 53"
  proof -
    have "(\<lambda>d. to_double (d_iter d)) ` {d \<in> set ?ds. d_variant d = v \<and> d_url d = Some w}
            = d_iter ` {d \<in> set ?ds. d_variant d = v \<and> d_url d = Some w}" for w
      by (rule image_cong [OF refl]) (use b in \<open>simp add: to_double_exact\<close>)
    then have "?S = payload_maxima ?ds v"
      by (simp add: reported_payload_maxima_def payload_maxima_def)
    with min show ?thesis by simp
  qed
  from ne min exact show ?thesis by auto
qed

theorem min_iteration_least_payload_maximum_witness:
  "get_variant_iterations recycling_index 100 ''c'' (Some ''T'') (Some ''M'') None
     = Inr [(''x'', 2, 3)] \<and>
   (''x'', 2, 3) \<in> set [(''x'', 2 :: int, 3 :: int)] \<and>
   resolver_docs recycling_index ''c'' (Some ''T'') (Some ''M'') None = recycling_index ''c'' \<and>
   map d_iter (recycling_index ''c'') = [1, 2, 3] \<and>
   payload_maxima (resolver_docs recycling_index ''c'' (Some ''T'') (Some ''M'') None) ''x'' \<noteq> {} \<and>
   2 = Min (reported_payload_maxima
              (resolver_docs recycling_index ''c'' (Some ''T'') (Some ''M'') None) ''x'') \<and>
   2 = Min (payload_maxima (resolver_docs recycling_index ''c'' (Some ''T'') (Some ''M'') None) ''x'')"
proof -
  have m: "(''x'', 2, 3) \<in> set [(''x'', 2 :: int, 3 :: int)]" by simp
  have r: "resolver_docs recycling_index ''c'' (Some ''T'') (Some ''M'') None = recycling_index ''c''"
    by (simp add: resolver_docs_def recycling_index_def sample_def)
  have i: "map d_iter (recycling_index ''c'') = [1, 2, 3]"
    by (simp add: recycling_index_def sample_def)
  have b: "\<forall>d \<in> set (resolver_docs recycling_index ''c'' (Some ''T'') (Some ''M'') None).
             d_variant d = ''x'' \<longrightarrow> \<bar>d_iter d\<bar> \<le> 2 ^ 53"
    by (simp add: resolver_docs_def recycling_index_def sample_def)
  from min_iteration_least_payload_maximum [OF recycling_resolved m] b
  have "payload_maxima (resolver_docs recycling_index ''c'' (Some ''T'') (Some ''M'') None) ''x'' \<noteq> {}"
    and "2 = Min (reported_payload_maxima
              (resolver_docs recycling_index ''c'' (Some ''T'') (Some ''M'') None) ''x'')"
    and "2 = Min (payload_maxima
              (resolver_docs recycling_index ''c'' (Some ''T'') (Some ''M'') None) ''x'')"
    by blast+
  with recycling_resolved m r i show ?thesis by (intro conjI)
qed

text \<open>
  The claim as the spec states it has \<open>min_iteration\<close> 3 for that variant, where the
  resolver gives 2; and it has the exact minimum at every iteration, where for a sample at
  iteration \<open>2 ^ 53 + 1\<close> the resolver gives \<open>2 ^ 53\<close>.
\<close>

theorem recycling_min_iteration_counterexample:
  "get_variant_iterations recycling_index 100 ''c'' (Some ''T'') (Some ''M'') None
     \<noteq> Inr [(''x'', 3, 3)] \<and>
   get_variant_iterations large_index 100 ''c'' (Some ''T'') (Some ''M'') None
     = Inr [(''x'', 9007199254740992, 9007199254740992)] \<and>
   Min (payload_maxima (resolver_docs large_index ''c'' (Some ''T'') (Some ''M'') None) ''x'')
     = 9007199254740993"
  using large_payload_maxima by (simp add: recycling_resolved large_resolved)

text \<open>
  C4. For every variant the resolver returns, \<open>min_iteration \<le> max_iteration\<close>.
\<close>

theorem min_iteration_le_max_iteration:
  assumes "get_variant_iterations es n c t m vs = Inr rs" and "(v, mn, mx) \<in> set rs"
  shows "mn \<le> mx"
proof -
  let ?ds = "resolver_docs es c t m vs"
  from resolved_min_iteration(1) [OF assms] obtain u d0
    where d0: "d0 \<in> set ?ds" "d_variant d0 = v" "d_url d0 = Some u"
      and mn: "mn = Max ((\<lambda>d. to_double (d_iter d)) ` {d \<in> set ?ds. d_variant d = v \<and> d_url d = Some u})" by blast
  have "Max ((\<lambda>d. to_double (d_iter d)) ` {d \<in> set ?ds. d_variant d = v \<and> d_url d = Some u})
        \<le> Max ((\<lambda>d. to_double (d_iter d)) ` {d \<in> set ?ds. d_variant d = v})"
  proof (rule Max_mono)
    show "(\<lambda>d. to_double (d_iter d)) ` {d \<in> set ?ds. d_variant d = v \<and> d_url d = Some u}
          \<subseteq> (\<lambda>d. to_double (d_iter d)) ` {d \<in> set ?ds. d_variant d = v}" by auto
    show "(\<lambda>d. to_double (d_iter d)) ` {d \<in> set ?ds. d_variant d = v \<and> d_url d = Some u} \<noteq> {}"
      using d0 by auto
    show "finite ((\<lambda>d. to_double (d_iter d)) ` {d \<in> set ?ds. d_variant d = v})" by simp
  qed
  with mn resolved_min_iteration(3) [OF assms] show ?thesis by simp
qed

theorem min_iteration_le_max_iteration_witness:
  "get_variant_iterations recycling_index 100 ''c'' (Some ''T'') (Some ''M'') None
     = Inr [(''x'', 2, 3)] \<and>
   (''x'', 2, 3) \<in> set [(''x'', 2 :: int, 3 :: int)] \<and> (2 :: int) \<le> 3"
  using min_iteration_le_max_iteration [OF recycling_resolved, of "''x''" 2 3]
    recycling_resolved
  by simp

section \<open>The order of the two phases\<close>

text \<open>
  C2 (amended). \<open>get_next_debug_image\<close> takes the document of the same-iteration phase
  when that phase finds one. For a state with the two variants \<open>a\<close> and \<open>b\<close>, both with
  \<open>min_iteration \<le> 5\<close>, standing at \<open>a\<close> and iteration 5, and an index that holds a
  sample of \<open>b\<close> at iteration 5 for the task and metric of the state, advancing forward
  selects a document of \<open>b\<close> at iteration 5, whatever later documents there are.
\<close>

theorem advance_prefers_sibling:
  assumes "get_state cm sid = Some state" and "task state = Some t" and "metric state = Some m"
    and "variant state = Some ''a''" and "iteration state = Some 5"
    and "variant_states state = [va, vb]" and "name va = ''a''" and "name vb = ''b''"
    and "min_iteration va \<le> 5" and "min_iteration vb \<le> 5"
    and "d0 \<in> set (es c)" and "d_task d0 = t" and "d_metric d0 = m"
    and "d_variant d0 = ''b''" and "d_iter d0 = 5" and "d_url d0 \<noteq> None"
  shows "\<exists>d res cm'.
           get_next_for_current_iteration es c False state = Inr (Some d) \<and>
           get_next_debug_image es c t sid False cm = (Inr res, cm') \<and>
           event res = Some d \<and> d_variant d = ''b'' \<and> d_iter d = 5"
proof -
  let ?req = "\<lparr>req_size = 1, req_sort = [(Variant, Asc)],
               req_query = Bool_must
                 [Q_term Task (Str t), Q_term Metric (Str m),
                  Q_terms Variant [Str ''b''], Q_term Iter (Num 5), Q_exists Url]\<rparr>"
  have vs: "current_iteration_variants False state = Inr [vb]"
    using assms(4,5,6,7,8,10) by (rule pair_current_iteration_variants)
  obtain hits where s: "search_company_events es c ?req = Inr hits"
    by (simp add: search_company_events_def)
  have p1: "get_next_for_current_iteration es c False state = Inr (first_hit hits)"
    using vs s assms(2,3,5,8)
    by (simp add: get_next_for_current_iteration_def jstr_def jint_def)
  have m0: "matches (req_query ?req) d0"
    using assms(12-16) by (auto simp: jstr_def)
  have "first_hit hits \<noteq> None"
    using search_first_hit_None [OF s] m0 assms(11) by auto
  then obtain d where d: "first_hit hits = Some d" by auto
  from search_first_hit_Some [OF s _ d] have md: "matches (req_query ?req) d" by simp
  then have dv: "d_variant d = ''b''" and di: "d_iter d = 5" by simp_all
  have ne: "\<not> check_empty_data es c"
    using assms(11) by (auto simp: check_empty_data_def)
  obtain res state'
    where f: "fill_res_and_update_state d (DebugSampleHistoryResult (Some sid)) state = (res, state')"
    by (cases "fill_res_and_update_state d (DebugSampleHistoryResult (Some sid)) state")
  from fill_event [of d "DebugSampleHistoryResult (Some sid)" state] f
  have ev: "event res = Some d" by simp
  have "get_next_debug_image es c t sid False cm = (Inr res, set_state cm state')"
    using assms(1,2) ne p1 d f by (simp add: get_next_debug_image_def Let_def)
  with p1 d ev dv di show ?thesis by auto
qed

theorem advance_prefers_sibling_witness:
  "get_state tie_cache ''s'' = Some tie_state \<and>
   task tie_state = Some ''T'' \<and> metric tie_state = Some ''M'' \<and>
   variant tie_state = Some ''a'' \<and> iteration tie_state = Some 5 \<and>
   variant_states tie_state =
     [\<lparr>name = ''a'', min_iteration = 5, max_iteration = 6\<rparr>,
      \<lparr>name = ''b'', min_iteration = 5, max_iteration = 5\<rparr>] \<and>
   sample ''b'' 5 ''u2'' \<in> set (tie_index ''c'') \<and>
   sample ''a'' 6 ''u3'' \<in> set (tie_index ''c'') \<and>
   (\<exists>d res cm'.
      get_next_for_current_iteration tie_index ''c'' False tie_state = Inr (Some d) \<and>
      get_next_debug_image tie_index ''c'' ''T'' ''s'' False tie_cache = (Inr res, cm') \<and>
      event res = Some d \<and> d_variant d = ''b'' \<and> d_iter d = 5)"
proof -
  have g: "get_state tie_cache ''s'' = Some tie_state"
    by (simp add: get_state_def tie_cache_def)
  have st: "task tie_state = Some ''T''" "metric tie_state = Some ''M''"
    "variant tie_state = Some ''a''" "iteration tie_state = Some 5"
    "variant_states tie_state =
       [\<lparr>name = ''a'', min_iteration = 5, max_iteration = 6\<rparr>,
        \<lparr>name = ''b'', min_iteration = 5, max_iteration = 5\<rparr>]"
    by (simp_all add: tie_state_def)
  have ix: "sample ''b'' 5 ''u2'' \<in> set (tie_index ''c'')"
    "sample ''a'' 6 ''u3'' \<in> set (tie_index ''c'')"
    by (simp_all add: tie_index_def)
  have d0: "d_task (sample ''b'' 5 ''u2'') = ''T''" "d_metric (sample ''b'' 5 ''u2'') = ''M''"
    "d_variant (sample ''b'' 5 ''u2'') = ''b''" "d_iter (sample ''b'' 5 ''u2'') = 5"
    "d_url (sample ''b'' 5 ''u2'') \<noteq> None"
    by (simp_all add: sample_def)
  have "\<exists>d res cm'.
      get_next_for_current_iteration tie_index ''c'' False tie_state = Inr (Some d) \<and>
      get_next_debug_image tie_index ''c'' ''T'' ''s'' False tie_cache = (Inr res, cm') \<and>
      event res = Some d \<and> d_variant d = ''b'' \<and> d_iter d = 5"
    by (rule advance_prefers_sibling
          [where es = tie_index and c = "''c''" and ?d0.0 = "sample ''b'' 5 ''u2''",
           OF g st(1-5) _ _ _ _ ix(1) d0]) simp_all
  with g st ix show ?thesis by (intro conjI)
qed

text \<open>
  The claim as the spec states it asks only for both windows to start at or before
  iteration 5. With \<open>b\<close> sampled at iterations 3 and 7 only, advancing forward from \<open>a\<close>
  at iteration 5 selects \<open>b\<close> at iteration 7.
\<close>

theorem advance_sparse_sibling_counterexample:
  "get_state sparse_cache ''s'' = Some sparse_state \<and>
   variant sparse_state = Some ''a'' \<and> iteration sparse_state = Some 5 \<and>
   variant_states sparse_state =
     [\<lparr>name = ''a'', min_iteration = 5, max_iteration = 5\<rparr>,
      \<lparr>name = ''b'', min_iteration = 3, max_iteration = 7\<rparr>] \<and>
   fst (get_next_debug_image sparse_index ''c'' ''T'' ''s'' False sparse_cache) =
     Inr \<lparr>scroll_id = Some ''s'', event = Some (sample ''b'' 7 ''u3''),
          res_min_iteration = Some 3, res_max_iteration = Some 7\<rparr> \<and>
   d_iter (sample ''b'' 7 ''u3'') \<noteq> 5"
  using sparse_advance
  by (simp add: get_state_def sparse_cache_def sparse_state_def sample_def)

section \<open>Navigation\<close>



text \<open>
  C6. When both phases find no document, \<open>get_next_debug_image\<close> returns a result without
  event and bounds whose \<open>scroll_id\<close> is the cursor id passed in, and the cache is as it
  was: the state is not written back.
\<close>

theorem advance_miss_keeps_state:
  assumes "get_state cm sid = Some state" and "task state = Some t"
    and "get_next_for_current_iteration es c ne state = Inr None"
    and "get_next_for_another_iteration es c ne state = Inr None"
  shows "get_next_debug_image es c t sid ne cm =
           (Inr \<lparr>scroll_id = Some sid, event = None,
                 res_min_iteration = None, res_max_iteration = None\<rparr>, cm)"
  using assms by (simp add: get_next_debug_image_def DebugSampleHistoryResult_def Let_def)

theorem advance_miss_keeps_state_witness:
  "get_state scenario_cache ''s'' = Some scenario_state \<and>
   task scenario_state = Some ''T'' \<and>
   get_next_for_current_iteration scenario_index ''c'' False scenario_state = Inr None \<and>
   get_next_for_another_iteration scenario_index ''c'' False scenario_state = Inr None \<and>
   get_next_debug_image scenario_index ''c'' ''T'' ''s'' False scenario_cache =
     (Inr \<lparr>scroll_id = Some ''s'', event = None,
           res_min_iteration = None, res_max_iteration = None\<rparr>, scenario_cache)"
proof -
  have g: "get_state scenario_cache ''s'' = Some scenario_state"
    by (simp add: get_state_def scenario_cache_def)
  have t: "task scenario_state = Some ''T''" by (simp add: scenario_state_def)
  from advance_miss_keeps_state [OF g t scenario_forward_current scenario_forward_another]
       g t scenario_forward_current scenario_forward_another
  show ?thesis by simp
qed

text \<open>
  C7. \<open>get_next_debug_image\<close> raises \<open>InvalidScrollId\<close> exactly when the cache has no state
  for the cursor id or the state's task differs from the task passed in.
\<close>

theorem advance_invalid_cursor_iff:
  "fst (get_next_debug_image es c t sid ne cm) = Inl InvalidScrollId \<longleftrightarrow>
     (get_state cm sid = None \<or> (\<exists>state. get_state cm sid = Some state \<and> task state \<noteq> Some t))"
proof (cases "get_state cm sid")
  case None
  then show ?thesis by (simp add: get_next_debug_image_def)
next
  case (Some state)
  show ?thesis
  proof (cases "task state = Some t")
    case False
    with Some show ?thesis by (simp add: get_next_debug_image_def)
  next
    case True
    have "fst (get_next_debug_image es c t sid ne cm) \<noteq> Inl InvalidScrollId"
      using Some True
        current_iteration_no_InvalidScrollId [of es c ne state]
        another_iteration_no_InvalidScrollId [of es c ne state]
      by (auto simp: get_next_debug_image_def Let_def split: sum.splits option.splits prod.splits)
    with Some True show ?thesis by simp
  qed
qed

text \<open>
  C9 (amended). When \<open>_fill_res_and_update_state\<close> is given a document whose variant is
  not a name in \<open>variant_states\<close>, it sets the event of the result and the variant and
  iteration of the state, and nothing else: the bounds of the result stay as they were
  and the \<open>warning\<close> of the state stays as it was.
\<close>

theorem selection_of_unknown_variant:
  assumes "d_variant image' \<notin> name ` set (variant_states state)"
  shows "fill_res_and_update_state image' res state =
           (res\<lparr>event := Some image'\<rparr>,
            state\<lparr>variant := Some (d_variant image'), iteration := Some (d_iter image')\<rparr>)"
proof -
  from assms have "find (\<lambda>s. name s = d_variant image') (variant_states state) = None"
    unfolding find_None_iff image_iff by metis
  then show ?thesis by (simp add: fill_res_and_update_state_def Let_def)
qed

theorem selection_of_unknown_variant_witness:
  "d_variant (sample ''z'' 4 ''u9'') \<notin> name ` set (variant_states scenario_state) \<and>
   fill_res_and_update_state (sample ''z'' 4 ''u9'') (DebugSampleHistoryResult (Some ''s''))
       scenario_state =
     ((DebugSampleHistoryResult (Some ''s''))\<lparr>event := Some (sample ''z'' 4 ''u9'')\<rparr>,
      scenario_state\<lparr>variant := Some (d_variant (sample ''z'' 4 ''u9'')),
                     iteration := Some (d_iter (sample ''z'' 4 ''u9''))\<rparr>)"
proof -
  have h: "d_variant (sample ''z'' 4 ''u9'') \<notin> name ` set (variant_states scenario_state)"
    by (simp add: sample_def scenario_state_def)
  from selection_of_unknown_variant [OF h] h show ?thesis by simp
qed

text \<open>
  The claim as the spec states it has the warning of the state set; the code leaves it
  unset.
\<close>

theorem selection_warning_counterexample:
  "warning (snd (fill_res_and_update_state (sample ''z'' 4 ''u9'')
                   (DebugSampleHistoryResult (Some ''s'')) scenario_state)) = None"
  by (simp add: fill_res_and_update_state_def Let_def scenario_state_def sample_def)

text \<open>
  C10. On an index without documents, \<open>get_debug_image_for_variant\<close> returns the empty
  result, without \<open>scroll_id\<close> even when a cursor id is passed in, and the cache is as it
  was: no state is created, validated or saved.
\<close>

theorem jump_on_empty_index:
  assumes "check_empty_data es c"
  shows "get_debug_image_for_variant es n c t m v it refresh sid cm =
           (Inr \<lparr>scroll_id = None, event = None,
                 res_min_iteration = None, res_max_iteration = None\<rparr>, cm)"
  using assms by (simp add: get_debug_image_for_variant_def DebugSampleHistoryResult_def)

theorem jump_on_empty_index_witness:
  "check_empty_data empty_index ''c'' \<and>
   get_debug_image_for_variant empty_index 100 ''c'' ''other'' ''M'' ''a'' None True (Some ''s'')
       scenario_cache =
     (Inr \<lparr>scroll_id = None, event = None,
           res_min_iteration = None, res_max_iteration = None\<rparr>, scenario_cache)"
proof -
  have h: "check_empty_data empty_index ''c''"
    by (simp add: check_empty_data_def empty_index_def)
  from jump_on_empty_index [OF h] h show ?thesis by simp
qed

section \<open>The order of the variant states\<close>

text \<open>
  C5. \<open>variant_states\<close> is sorted ascending by variant name: the resolver returns the
  variants sorted by name, \<open>_reset_variant_states\<close> stores them in that very order,
  \<open>_fill_res_and_update_state\<close> and the block of \<open>get_debug_image_for_variant\<close> leave
  \<open>variant_states\<close> as it is, every state that \<open>get_next_debug_image\<close> leaves in the cache
  has the \<open>variant_states\<close> of a state that was there before, and both operations keep
  every cached state sorted.
\<close>

theorem variant_states_stay_sorted:
  "(\<forall>rs. get_variant_iterations es n c t' m' vs = Inr rs \<longrightarrow> sorted (map fst rs)) \<and>
   (\<forall>state'. reset_variant_states es n c state = Inr state' \<longrightarrow>
      sorted (map name (variant_states state')) \<and>
      (\<exists>rs. get_variant_iterations es n c (task state) (metric state) None = Inr rs \<and>
         map name (variant_states state') = map fst rs)) \<and>
   variant_states (snd (fill_res_and_update_state image' res state)) = variant_states state \<and>
   (\<forall>r state'. debug_image_for_variant_block es c t m v it state = Inr (r, state') \<longrightarrow>
      variant_states state' = variant_states state) \<and>
   (\<forall>i s'. states (snd (get_next_debug_image es c t sid ne cm)) i = Some s' \<longrightarrow>
      (\<exists>j s. states cm j = Some s \<and> variant_states s' = variant_states s)) \<and>
   (cache_sorted cm \<longrightarrow> cache_sorted (snd (get_next_debug_image es c t sid ne cm))) \<and>
   (cache_sorted cm \<longrightarrow>
      cache_sorted (snd (get_debug_image_for_variant es n c t m v it refresh sid' cm)))"
proof (intro conjI allI impI)
  fix rs assume "get_variant_iterations es n c t' m' vs = Inr rs"
  then show "sorted (map fst rs)" by (rule resolver_sorted)
next
  fix state' assume "reset_variant_states es n c state = Inr state'"
  then show "sorted (map name (variant_states state'))" by (rule reset_sorted)
next
  fix state' assume "reset_variant_states es n c state = Inr state'"
  then show "\<exists>rs. get_variant_iterations es n c (task state) (metric state) None = Inr rs \<and>
               map name (variant_states state') = map fst rs"
    by (rule reset_names)
next
  show "variant_states (snd (fill_res_and_update_state image' res state)) = variant_states state"
    by (rule fill_variant_states)
next
  fix r state' assume "debug_image_for_variant_block es c t m v it state = Inr (r, state')"
  then show "variant_states state' = variant_states state" by (rule block_keeps(1))
next
  fix i s' assume a: "states (snd (get_next_debug_image es c t sid ne cm)) i = Some s'"
  from advance_cache [of es c t sid ne cm]
  consider "snd (get_next_debug_image es c t sid ne cm) = cm"
    | s0 image0 res0 where "get_state cm sid = Some s0"
        "snd (get_next_debug_image es c t sid ne cm) =
           set_state cm (snd (fill_res_and_update_state image0 res0 s0))"
    by blast
  then show "\<exists>j s. states cm j = Some s \<and> variant_states s' = variant_states s"
  proof cases
    case 1
    with a show ?thesis by auto
  next
    case 2
    show ?thesis
    proof (cases "i = st_id (snd (fill_res_and_update_state image0 res0 s0))")
      case True
      with a 2(2) have "s' = snd (fill_res_and_update_state image0 res0 s0)"
        by (simp add: set_state_def)
      then have "variant_states s' = variant_states s0" by (simp add: fill_variant_states)
      with 2(1) show ?thesis by (auto simp: get_state_def)
    next
      case False
      with a 2(2) have "states cm i = Some s'" by (simp add: set_state_def)
      then show ?thesis by auto
    qed
  qed
next
  assume "cache_sorted cm"
  then show "cache_sorted (snd (get_next_debug_image es c t sid ne cm))"
    by (rule advance_sorted)
next
  assume "cache_sorted cm"
  then show "cache_sorted (snd (get_debug_image_for_variant es n c t m v it refresh sid' cm))"
    by (rule jump_sorted)
qed

theorem variant_states_stay_sorted_witness:
  "get_variant_iterations scenario_index 100 ''c'' (Some ''T'') (Some ''M'') None
     = Inr [(''a'', 0, 1), (''b'', 0, 0)] \<and>
   sorted (map fst [(''a'', 0 :: int, 1 :: int), (''b'', 0, 0)]) \<and>
   cache_sorted scenario_cache \<and>
   cache_sorted (snd (get_next_debug_image scenario_index ''c'' ''T'' ''s'' True scenario_cache)) \<and>
   cache_sorted (snd (get_debug_image_for_variant scenario_index 100 ''c'' ''T'' ''M'' ''a''
                        None True (Some ''s'') scenario_cache))"
proof -
  note th = variant_states_stay_sorted
    [of scenario_index 100 "''c''" "Some ''T''" "Some ''M''" None scenario_state
        "sample ''b'' 0 ''u2''" "DebugSampleHistoryResult (Some ''s'')"
        "''T''" "''M''" "''a''" None "''s''" True scenario_cache True "Some ''s''"]
  from th scenario_resolved
  have a: "sorted (map fst [(''a'', 0 :: int, 1 :: int), (''b'', 0, 0)])" by blast
  from th scenario_cache_sorted
  have b: "cache_sorted
             (snd (get_next_debug_image scenario_index ''c'' ''T'' ''s'' True scenario_cache))"
    by blast
  from th scenario_cache_sorted
  have c: "cache_sorted (snd (get_debug_image_for_variant scenario_index 100 ''c'' ''T'' ''M'' ''a''
                        None True (Some ''s'') scenario_cache))"
    by blast
  from scenario_resolved a scenario_cache_sorted b c show ?thesis by (intro conjI)
qed

section \<open>Jumping to a variant twice\<close>

text \<open>
  C8 (amended). When a cursor id is passed in, \<open>get_debug_image_for_variant\<close> called twice
  in a row with the same arguments, on the same index, has the same outcome both times:
  the same result (\<open>scroll_id\<close>, event and bounds) or the same error.
\<close>

theorem jump_twice_same_result:
  "fst (get_debug_image_for_variant es n c t m v it refresh (Some sid)
          (snd (get_debug_image_for_variant es n c t m v it refresh (Some sid) cm))) =
   fst (get_debug_image_for_variant es n c t m v it refresh (Some sid) cm)"
proof (cases "check_empty_data es c")
  case True
  then show ?thesis by (simp add: get_debug_image_for_variant_def)
next
  case False
  show ?thesis
  proof (cases "get_state cm sid")
    case None
    with False show ?thesis by (rule jump_twice_absent)
  next
    case (Some state)
    then show ?thesis by (rule jump_twice_present)
  qed
qed

theorem jump_twice_same_result_witness:
  "fst (get_debug_image_for_variant scenario_index 100 ''c'' ''T'' ''M'' ''a'' None True (Some ''s'')
          (snd (get_debug_image_for_variant scenario_index 100 ''c'' ''T'' ''M'' ''a'' None True
                  (Some ''s'') scenario_cache))) =
   fst (get_debug_image_for_variant scenario_index 100 ''c'' ''T'' ''M'' ''a'' None True (Some ''s'')
          scenario_cache) \<and>
   fst (get_debug_image_for_variant scenario_index 100 ''c'' ''T'' ''M'' ''a'' None False (Some ''q'')
          (snd (get_debug_image_for_variant scenario_index 100 ''c'' ''T'' ''M'' ''a'' None False
                  (Some ''q'') empty_cache))) =
   fst (get_debug_image_for_variant scenario_index 100 ''c'' ''T'' ''M'' ''a'' None False (Some ''q'')
          empty_cache)"
  using jump_twice_same_result
          [of scenario_index 100 "''c''" "''T''" "''M''" "''a''" None True "''s''" scenario_cache]
        jump_twice_same_result
          [of scenario_index 100 "''c''" "''T''" "''M''" "''a''" None False "''q''" empty_cache]
  by (intro conjI)

text \<open>
  The claim as the spec states it covers the call without a cursor id. There each call
  mints an id of its own, and the two results differ in their \<open>scroll_id\<close>.
\<close>

theorem jump_twice_fresh_cursor_counterexample:
  "fst (get_debug_image_for_variant scenario_index 100 ''c'' ''T'' ''M'' ''a'' None False None
          (snd (get_debug_image_for_variant scenario_index 100 ''c'' ''T'' ''M'' ''a'' None False
                  None empty_cache))) \<noteq>
   fst (get_debug_image_for_variant scenario_index 100 ''c'' ''T'' ''M'' ''a'' None False None
          empty_cache)"
  unfolding fresh_first fresh_second by simp

end
